theory Spec2Isabelle
  imports Main "HOL-Library.Word"
begin

unbundle bit_operations_syntax

section \<open>Data model of \<open>src/wasm32/ffi.c\<close>\<close>

text \<open>
  The type tag of a descriptor (\<open>unsigned short type\<close>).  The named tags are the ones the
  switch statements of the source distinguish; every other 16-bit value is
  \<open>FFI_TYPE_UNKNOWN\<close> and reaches the \<open>default:\<close> branches.
\<close>

datatype ffi_kind =
    FFI_TYPE_VOID
  | FFI_TYPE_INT
  | FFI_TYPE_FLOAT
  | FFI_TYPE_DOUBLE
  | FFI_TYPE_LONGDOUBLE
  | FFI_TYPE_UINT8
  | FFI_TYPE_SINT8
  | FFI_TYPE_UINT16
  | FFI_TYPE_SINT16
  | FFI_TYPE_UINT32
  | FFI_TYPE_SINT32
  | FFI_TYPE_UINT64
  | FFI_TYPE_SINT64
  | FFI_TYPE_STRUCT
  | FFI_TYPE_POINTER
  | FFI_TYPE_COMPLEX
  | FFI_TYPE_UNKNOWN nat

text \<open>Pointers of wasm32 are 32 bits wide; the null pointer is 0.\<close>

type_synonym addr = "32 word"

text \<open>
  \<open>ffi_type\<close>: \<open>size_t size\<close>, \<open>unsigned short alignment\<close>, \<open>unsigned short type\<close> and the
  null-terminated vector \<open>elements\<close>, kept as the list of the entries in front of the
  terminator (a null \<open>elements\<close> pointer is the empty list).  The field \<open>size\<close> is
  called \<open>size_bytes\<close> here.
\<close>

record ffi_type =
  size_bytes :: "32 word"
  alignment :: "16 word"
  type :: ffi_kind
  elements :: "addr list"

text \<open>
  Descriptors are shared and rewritten in place, so they live in a store keyed by
  their address.  An address without a descriptor cannot be dereferenced.
\<close>

type_synonym heap = "addr \<rightharpoonup> ffi_type"

text \<open>
  The addresses of the front end's static descriptors \<open>ffi_type_float\<close>,
  \<open>ffi_type_double\<close>, \<open>ffi_type_longdouble\<close> and \<open>ffi_type_sint64\<close>, which
  \<open>replace_type\<close> names in its static element vectors.  They are defined outside this
  file of the source and are parameters here; what they hold is read from the store.
\<close>

record statics =
  ffi_type_float :: addr
  ffi_type_double :: addr
  ffi_type_longdouble :: addr
  ffi_type_sint64 :: addr

datatype ffi_abi = FFI_WASM32 | FFI_WASM32_EMSCRIPTEN | FFI_ABI_OTHER nat

datatype ffi_status = FFI_OK | FFI_BAD_TYPEDEF | FFI_BAD_ABI

text \<open>
  \<open>ffi_cif\<close>: the fields the machine-dependent layer reads and writes.  \<open>arg_types\<close> is
  the vector the pointer of that name refers to.
\<close>

record ffi_cif =
  abi :: ffi_abi
  nargs :: "32 word"
  arg_types :: "addr list"
  rtype :: addr
  flags :: "32 word"
  nfixedargs :: "32 word"

text \<open>
  How a call can fail to return: \<open>Abort\<close> is \<open>ABORT_WITH_MSG\<close> / \<open>abort()\<close>;
  \<open>Undefined\<close> is a read through a pointer that refers to no object (undefined
  behaviour in C); \<open>OutOfFuel\<close> is the recursion bound of the model being reached.
\<close>

datatype error = Abort | Undefined | OutOfFuel

definition MAX_ARGS :: nat where
  "MAX_ARGS = 1000"

definition VARARGS_FLAG :: "32 word" where
  "VARARGS_FLAG = 1"

section \<open>The type canonicaliser \<open>replace_type\<close>\<close>

text \<open>
  The three static element vectors of the COMPLEX branch, selected by the tag of
  \<open>type->elements[0]\<close>; \<open>None\<close> is the \<open>default:\<close> branch, which aborts.
\<close>

definition complex_struct_elements :: "statics \<Rightarrow> ffi_kind \<Rightarrow> addr list option" where
  "complex_struct_elements G k =
     (if k = FFI_TYPE_FLOAT then Some [ffi_type_float G, ffi_type_float G]
      else if k = FFI_TYPE_DOUBLE then Some [ffi_type_double G, ffi_type_double G]
      else if k = FFI_TYPE_LONGDOUBLE then Some [ffi_type_longdouble G, ffi_type_longdouble G]
      else None)"

text \<open>
  The loop over the elements of a struct: \<open>rt\<close> is the recursive call
  \<open>replace_type(type->elements[i], false)\<close>; the state is the store, \<open>scalar_type\<close>
  and \<open>number_of_nonvoid_elements\<close>.
\<close>

fun replace_type_loop ::
  "(heap \<Rightarrow> addr \<Rightarrow> error + heap \<times> ffi_kind) \<Rightarrow> heap \<Rightarrow> addr list \<Rightarrow> ffi_kind \<Rightarrow> nat
     \<Rightarrow> error + heap \<times> ffi_kind \<times> nat" where
  "replace_type_loop rt h [] scalar_type n = Inr (h, scalar_type, n)"
| "replace_type_loop rt h (e # es) scalar_type n =
     (case rt h e of
        Inl err \<Rightarrow> Inl err
      | Inr (h1, element_type) \<Rightarrow>
          if element_type \<noteq> FFI_TYPE_VOID
          then replace_type_loop rt h1 es element_type (n + 1)
          else replace_type_loop rt h1 es scalar_type n)"

text \<open>
  \<open>replace_type\<close>.  The first argument bounds the depth of the recursion through
  nested structs.  The \<open>FFI_ASSERT\<close>s of the COMPLEX branch are compiled out unless
  \<open>FFI_DEBUG\<close> is set and are not modelled.
\<close>

fun replace_type :: "nat \<Rightarrow> statics \<Rightarrow> heap \<Rightarrow> addr \<Rightarrow> bool \<Rightarrow> error + heap \<times> ffi_kind" where
  "replace_type 0 G h a in_results = Inl OutOfFuel"
| "replace_type (Suc fuel) G h a in_results =
     (if a = 0 then Inr (h, FFI_TYPE_VOID)
      else case h a of
        None \<Rightarrow> Inl Undefined
      | Some t \<Rightarrow>
          if type t = FFI_TYPE_COMPLEX then
            (case elements t of
               [] \<Rightarrow> Inl Undefined
             | c # _ \<Rightarrow>
                 (case h c of
                    None \<Rightarrow> Inl Undefined
                  | Some complex_type \<Rightarrow>
                      (case complex_struct_elements G (type complex_type) of
                         None \<Rightarrow> Inl Abort
                       | Some es \<Rightarrow>
                           Inr (h(a \<mapsto> t\<lparr>elements := es, type := FFI_TYPE_STRUCT,
                                          size_bytes := size_bytes complex_type * 2,
                                          alignment := alignment complex_type\<rparr>),
                                FFI_TYPE_STRUCT))))
          else if in_results \<and> type t = FFI_TYPE_LONGDOUBLE then
            (case h (ffi_type_sint64 G) of
               None \<Rightarrow> Inl Undefined
             | Some sint64 \<Rightarrow>
                 Inr (h(a \<mapsto> t\<lparr>type := FFI_TYPE_STRUCT,
                                size_bytes := size_bytes sint64 * 2,
                                alignment := 16,
                                elements := [ffi_type_sint64 G, ffi_type_sint64 G]\<rparr>),
                      FFI_TYPE_STRUCT))
          else if type t = FFI_TYPE_STRUCT then
            (if size_bytes t = 0 then Inr (h(a \<mapsto> t\<lparr>type := FFI_TYPE_VOID\<rparr>), FFI_TYPE_VOID)
             else
               (case replace_type_loop (\<lambda>h' e. replace_type fuel G h' e False) h (elements t)
                       FFI_TYPE_VOID 0 of
                  Inl err \<Rightarrow> Inl err
                | Inr (h1, scalar_type, number_of_nonvoid_elements) \<Rightarrow>
                    (case h1 a of
                       None \<Rightarrow> Inl Undefined
                     | Some t1 \<Rightarrow>
                         if number_of_nonvoid_elements > 1 then Inr (h1, type t1)
                         else Inr (h1(a \<mapsto> t1\<lparr>type := scalar_type\<rparr>), scalar_type))))
          else Inr (h, type t))"

section \<open>CIF preparation\<close>

text \<open>
  The vector \<open>cif->arg_types[0 .. nargs-1]\<close> the loops walk over.  Reading past the
  end of the vector is undefined.
\<close>

definition arg_vector :: "ffi_cif \<Rightarrow> error + addr list" where
  "arg_vector cif =
     (if unat (nargs cif) \<le> length (arg_types cif)
      then Inr (take (unat (nargs cif)) (arg_types cif))
      else Inl Undefined)"

text \<open>\<open>for (i = 0; i < cif->nargs; i++) replace_type(cif->arg_types[i], false);\<close>\<close>

fun replace_args :: "nat \<Rightarrow> statics \<Rightarrow> heap \<Rightarrow> addr list \<Rightarrow> error + heap" where
  "replace_args fuel G h [] = Inr h"
| "replace_args fuel G h (a # as) =
     (case replace_type fuel G h a False of
        Inl err \<Rightarrow> Inl err
      | Inr (h1, _) \<Rightarrow> replace_args fuel G h1 as)"

text \<open>
  The emscripten build's scan of the top-level argument types:
  \<open>if (cif->arg_types[i]->type == FFI_TYPE_COMPLEX) return FFI_BAD_TYPEDEF;\<close>
\<close>

fun complex_argument :: "heap \<Rightarrow> addr list \<Rightarrow> error + bool" where
  "complex_argument h [] = Inr False"
| "complex_argument h (a # as) =
     (case h a of
        None \<Rightarrow> Inl Undefined
      | Some t \<Rightarrow> if type t = FFI_TYPE_COMPLEX then Inr True else complex_argument h as)"

text \<open>The part of \<open>ffi_prep_cif_machdep\<close> behind the \<open>#endif\<close>, common to both builds.\<close>

definition prep_cif_common :: "ffi_cif \<Rightarrow> ffi_cif \<times> ffi_status" where
  "prep_cif_common cif =
     (let cif1 = (if flags cif AND VARARGS_FLAG = 0 then cif\<lparr>nfixedargs := nargs cif\<rparr> else cif)
      in if unat (nargs cif1) > MAX_ARGS then (cif1, FFI_BAD_TYPEDEF) else (cif1, FFI_OK))"

text \<open>
  \<open>ffi_prep_cif_machdep\<close>.  The flag \<open>emscripten\<close> says which side of
  \<open>#ifdef __EMSCRIPTEN__\<close> is compiled.  The result is the store, the CIF and the status.
\<close>

definition ffi_prep_cif_machdep ::
  "bool \<Rightarrow> nat \<Rightarrow> statics \<Rightarrow> heap \<Rightarrow> ffi_cif \<Rightarrow> error + heap \<times> ffi_cif \<times> ffi_status" where
  "ffi_prep_cif_machdep emscripten fuel G h cif =
     (if emscripten then
        (if abi cif \<noteq> FFI_WASM32_EMSCRIPTEN then Inr (h, cif, FFI_BAD_ABI)
         else case h (rtype cif) of
           None \<Rightarrow> Inl Undefined
         | Some rt \<Rightarrow>
             if type rt = FFI_TYPE_COMPLEX then Inr (h, cif, FFI_BAD_TYPEDEF)
             else (case arg_vector cif of
                     Inl err \<Rightarrow> Inl err
                   | Inr as \<Rightarrow>
                       (case complex_argument h as of
                          Inl err \<Rightarrow> Inl err
                        | Inr True \<Rightarrow> Inr (h, cif, FFI_BAD_TYPEDEF)
                        | Inr False \<Rightarrow> Inr (h, prep_cif_common cif))))
      else
        (case arg_vector cif of
           Inl err \<Rightarrow> Inl err
         | Inr as \<Rightarrow>
             (case replace_args fuel G h as of
                Inl err \<Rightarrow> Inl err
              | Inr h1 \<Rightarrow>
                  (case replace_type fuel G h1 (rtype cif) True of
                     Inl err \<Rightarrow> Inl err
                   | Inr (h2, _) \<Rightarrow> Inr (h2, prep_cif_common cif)))))"

text \<open>
  \<open>ffi_prep_cif_machdep_var\<close>; \<open>cif->nfixedargs + 1 > MAX_ARGS\<close> is an unsigned 32-bit
  comparison.
\<close>

definition ffi_prep_cif_machdep_var ::
  "bool \<Rightarrow> ffi_cif \<Rightarrow> 32 word \<Rightarrow> 32 word \<Rightarrow> ffi_cif \<times> ffi_status" where
  "ffi_prep_cif_machdep_var emscripten cif nfixed ntotalargs =
     (let cif1 = cif\<lparr>flags := flags cif OR VARARGS_FLAG, nfixedargs := nfixed\<rparr>
      in if emscripten
         then (if nfixedargs cif1 + 1 > 1000 then (cif1, FFI_BAD_TYPEDEF) else (cif1, FFI_OK))
         else (cif1, FFI_BAD_ABI))"

section \<open>The ABI classifier\<close>

text \<open>\<open>type_size\<close>: the size of a type in the wasm C ABI, a \<open>uint8_t\<close>.\<close>

definition type_size :: "heap \<Rightarrow> addr \<Rightarrow> error + 8 word" where
  "type_size h a =
     (if a = 0 then Inr 0
      else case h a of
        None \<Rightarrow> Inl Undefined
      | Some t \<Rightarrow>
          (case type t of
             FFI_TYPE_VOID \<Rightarrow> Inr 0
           | FFI_TYPE_INT \<Rightarrow> Inr 4
           | FFI_TYPE_UINT8 \<Rightarrow> Inr 4
           | FFI_TYPE_SINT8 \<Rightarrow> Inr 4
           | FFI_TYPE_UINT16 \<Rightarrow> Inr 4
           | FFI_TYPE_SINT16 \<Rightarrow> Inr 4
           | FFI_TYPE_UINT32 \<Rightarrow> Inr 4
           | FFI_TYPE_SINT32 \<Rightarrow> Inr 4
           | FFI_TYPE_FLOAT \<Rightarrow> Inr 4
           | FFI_TYPE_UINT64 \<Rightarrow> Inr 8
           | FFI_TYPE_SINT64 \<Rightarrow> Inr 8
           | FFI_TYPE_DOUBLE \<Rightarrow> Inr 8
           | FFI_TYPE_POINTER \<Rightarrow> Inr 4
           | FFI_TYPE_STRUCT \<Rightarrow> Inr 4
           | FFI_TYPE_LONGDOUBLE \<Rightarrow> Inr 16
           | FFI_TYPE_COMPLEX \<Rightarrow> Inl Abort
           | FFI_TYPE_UNKNOWN _ \<Rightarrow> Inl Abort))"

text \<open>\<open>return_indirect\<close>: whether a value of the type is returned through a hidden pointer.\<close>

definition return_indirect :: "heap \<Rightarrow> addr \<Rightarrow> error + bool" where
  "return_indirect h a =
     (if a = 0 then Inr False
      else case h a of
        None \<Rightarrow> Inl Undefined
      | Some t \<Rightarrow>
          (case type t of
             FFI_TYPE_VOID \<Rightarrow> Inr False
           | FFI_TYPE_INT \<Rightarrow> Inr False
           | FFI_TYPE_FLOAT \<Rightarrow> Inr False
           | FFI_TYPE_UINT8 \<Rightarrow> Inr False
           | FFI_TYPE_SINT8 \<Rightarrow> Inr False
           | FFI_TYPE_UINT16 \<Rightarrow> Inr False
           | FFI_TYPE_SINT16 \<Rightarrow> Inr False
           | FFI_TYPE_UINT32 \<Rightarrow> Inr False
           | FFI_TYPE_SINT32 \<Rightarrow> Inr False
           | FFI_TYPE_UINT64 \<Rightarrow> Inr False
           | FFI_TYPE_SINT64 \<Rightarrow> Inr False
           | FFI_TYPE_DOUBLE \<Rightarrow> Inr False
           | FFI_TYPE_POINTER \<Rightarrow> Inr False
           | FFI_TYPE_STRUCT \<Rightarrow> Inr True
           | FFI_TYPE_COMPLEX \<Rightarrow> Inl Abort
           | FFI_TYPE_LONGDOUBLE \<Rightarrow> Inl Abort
           | FFI_TYPE_UNKNOWN _ \<Rightarrow> Inl Abort))"

text \<open>
  \<open>arguments_count\<close>: the number of wasm values that carry the type.  The source
  dereferences its argument without a null check.
\<close>

definition arguments_count :: "heap \<Rightarrow> addr \<Rightarrow> error + 8 word" where
  "arguments_count h a =
     (case h a of
        None \<Rightarrow> Inl Undefined
      | Some t \<Rightarrow>
          (case type t of
             FFI_TYPE_VOID \<Rightarrow> Inr 0
           | FFI_TYPE_INT \<Rightarrow> Inr 1
           | FFI_TYPE_FLOAT \<Rightarrow> Inr 1
           | FFI_TYPE_UINT8 \<Rightarrow> Inr 1
           | FFI_TYPE_SINT8 \<Rightarrow> Inr 1
           | FFI_TYPE_UINT16 \<Rightarrow> Inr 1
           | FFI_TYPE_SINT16 \<Rightarrow> Inr 1
           | FFI_TYPE_UINT32 \<Rightarrow> Inr 1
           | FFI_TYPE_SINT32 \<Rightarrow> Inr 1
           | FFI_TYPE_UINT64 \<Rightarrow> Inr 1
           | FFI_TYPE_SINT64 \<Rightarrow> Inr 1
           | FFI_TYPE_DOUBLE \<Rightarrow> Inr 1
           | FFI_TYPE_POINTER \<Rightarrow> Inr 1
           | FFI_TYPE_STRUCT \<Rightarrow> Inr 1
           | FFI_TYPE_LONGDOUBLE \<Rightarrow> Inr 2
           | FFI_TYPE_COMPLEX \<Rightarrow> Inl Abort
           | FFI_TYPE_UNKNOWN _ \<Rightarrow> Inl Abort))"

section \<open>Argument lowering and raising\<close>

text \<open>
  Linear memory is an array of bytes addressed by 32-bit pointers; multi-byte objects
  are little-endian.  \<open>object_bytes m a n\<close> are the \<open>n\<close> bytes at \<open>a\<close>, \<open>load_le n m a\<close>
  reads them as one word and \<open>store_le n m a w\<close> writes the low \<open>n\<close> bytes of \<open>w\<close> there.  Floating-point objects
  are carried as their bit patterns: the source only copies them between objects
  of the same type.
\<close>

type_synonym memory = "addr \<Rightarrow> 8 word"

definition object_bytes :: "memory \<Rightarrow> addr \<Rightarrow> nat \<Rightarrow> 8 word list" where
  "object_bytes m a n = map (\<lambda>i. m (a + of_nat i)) [0..<n]"

definition load_le :: "nat \<Rightarrow> memory \<Rightarrow> addr \<Rightarrow> 'a::len word" where
  "load_le n m a = word_of_int (horner_sum uint (2 ^ 8) (object_bytes m a n))"

definition store_le :: "nat \<Rightarrow> memory \<Rightarrow> addr \<Rightarrow> 'a::len word \<Rightarrow> memory" where
  "store_le n m a w =
     (\<lambda>x. if unat (x - a) < n then ucast (drop_bit (8 * unat (x - a)) w) else m x)"

text \<open>
  \<open>place_value(type, value, &values)\<close>: the result is the memory and the advanced
  cursor \<open>*values\<close>.  The casts of the source are the loads and stores of the matching
  width; \<open>ucast\<close> zero-extends and \<open>scast\<close> sign-extends.
\<close>

definition place_value :: "heap \<Rightarrow> memory \<Rightarrow> addr \<Rightarrow> addr \<Rightarrow> addr \<Rightarrow> error + memory \<times> addr" where
  "place_value h m a v values =
     (case h a of
        None \<Rightarrow> Inl Undefined
      | Some t \<Rightarrow>
          (case type t of
             FFI_TYPE_VOID \<Rightarrow> Inr (m, values)
           | FFI_TYPE_UINT8 \<Rightarrow>
               Inr (store_le 4 m values (ucast (load_le 1 m v :: 8 word) :: 32 word), values + 4)
           | FFI_TYPE_SINT8 \<Rightarrow>
               Inr (store_le 4 m values (scast (load_le 1 m v :: 8 word) :: 32 word), values + 4)
           | FFI_TYPE_UINT16 \<Rightarrow>
               Inr (store_le 4 m values (ucast (load_le 2 m v :: 16 word) :: 32 word), values + 4)
           | FFI_TYPE_SINT16 \<Rightarrow>
               Inr (store_le 4 m values (scast (load_le 2 m v :: 16 word) :: 32 word), values + 4)
           | FFI_TYPE_UINT32 \<Rightarrow>
               Inr (store_le 4 m values (load_le 4 m v :: 32 word), values + 4)
           | FFI_TYPE_INT \<Rightarrow>
               Inr (store_le 4 m values (load_le 4 m v :: 32 word), values + 4)
           | FFI_TYPE_SINT32 \<Rightarrow>
               Inr (store_le 4 m values (load_le 4 m v :: 32 word), values + 4)
           | FFI_TYPE_FLOAT \<Rightarrow>
               Inr (store_le 4 m values (load_le 4 m v :: 32 word), values + 4)
           | FFI_TYPE_UINT64 \<Rightarrow>
               Inr (store_le 8 m values (load_le 8 m v :: 64 word), values + 8)
           | FFI_TYPE_SINT64 \<Rightarrow>
               Inr (store_le 8 m values (load_le 8 m v :: 64 word), values + 8)
           | FFI_TYPE_DOUBLE \<Rightarrow>
               Inr (store_le 8 m values (load_le 8 m v :: 64 word), values + 8)
           | FFI_TYPE_POINTER \<Rightarrow>
               Inr (store_le 4 m values (load_le 4 m v :: 32 word), values + 4)
           | FFI_TYPE_STRUCT \<Rightarrow>
               Inr (store_le 4 m values v, values + 4)
           | FFI_TYPE_LONGDOUBLE \<Rightarrow>
               Inr (store_le 16 m values (load_le 16 m v :: 128 word), values + 16)
           | FFI_TYPE_COMPLEX \<Rightarrow> Inl Abort
           | FFI_TYPE_UNKNOWN _ \<Rightarrow> Inl Abort))"

text \<open>\<open>take_value(type, &values)\<close>: the result is the returned pointer and the advanced cursor.\<close>

definition take_value :: "heap \<Rightarrow> memory \<Rightarrow> addr \<Rightarrow> addr \<Rightarrow> error + addr \<times> addr" where
  "take_value h m a values =
     (case h a of
        None \<Rightarrow> Inl Undefined
      | Some t \<Rightarrow>
          (case type t of
             FFI_TYPE_VOID \<Rightarrow> Inr (values, values)
           | FFI_TYPE_UINT8 \<Rightarrow> Inr (values, values + 4)
           | FFI_TYPE_SINT8 \<Rightarrow> Inr (values, values + 4)
           | FFI_TYPE_UINT16 \<Rightarrow> Inr (values, values + 4)
           | FFI_TYPE_SINT16 \<Rightarrow> Inr (values, values + 4)
           | FFI_TYPE_UINT32 \<Rightarrow> Inr (values, values + 4)
           | FFI_TYPE_INT \<Rightarrow> Inr (values, values + 4)
           | FFI_TYPE_SINT32 \<Rightarrow> Inr (values, values + 4)
           | FFI_TYPE_FLOAT \<Rightarrow> Inr (values, values + 4)
           | FFI_TYPE_UINT64 \<Rightarrow> Inr (values, values + 8)
           | FFI_TYPE_SINT64 \<Rightarrow> Inr (values, values + 8)
           | FFI_TYPE_DOUBLE \<Rightarrow> Inr (values, values + 8)
           | FFI_TYPE_POINTER \<Rightarrow> Inr (values, values + 4)
           | FFI_TYPE_STRUCT \<Rightarrow> Inr (load_le 4 m values, values + 4)
           | FFI_TYPE_LONGDOUBLE \<Rightarrow> Inr (values, values + 16)
           | FFI_TYPE_COMPLEX \<Rightarrow> Inl Abort
           | FFI_TYPE_UNKNOWN _ \<Rightarrow> Inl Abort))"

text \<open>
  The width of the C object \<open>place_value\<close> reads through \<open>value\<close> for each tag (the
  pointer type it casts \<open>value\<close> to).
\<close>

definition object_size :: "ffi_kind \<Rightarrow> nat" where
  "object_size k =
     (case k of
        FFI_TYPE_VOID \<Rightarrow> 0
      | FFI_TYPE_UINT8 \<Rightarrow> 1 | FFI_TYPE_SINT8 \<Rightarrow> 1
      | FFI_TYPE_UINT16 \<Rightarrow> 2 | FFI_TYPE_SINT16 \<Rightarrow> 2
      | FFI_TYPE_UINT32 \<Rightarrow> 4 | FFI_TYPE_INT \<Rightarrow> 4 | FFI_TYPE_SINT32 \<Rightarrow> 4
      | FFI_TYPE_FLOAT \<Rightarrow> 4 | FFI_TYPE_POINTER \<Rightarrow> 4
      | FFI_TYPE_UINT64 \<Rightarrow> 8 | FFI_TYPE_SINT64 \<Rightarrow> 8 | FFI_TYPE_DOUBLE \<Rightarrow> 8
      | FFI_TYPE_LONGDOUBLE \<Rightarrow> 16
      | _ \<Rightarrow> 0)"

section \<open>The forward caller \<open>ffi_call\<close> (the build without \<open>__EMSCRIPTEN__\<close>)\<close>

text \<open>\<open>for (...) total_size += type_size(cif->arg_types[i]);\<close> on a \<open>size_t\<close>.\<close>

fun sum_type_sizes :: "heap \<Rightarrow> addr list \<Rightarrow> 32 word \<Rightarrow> error + 32 word" where
  "sum_type_sizes h [] total_size = Inr total_size"
| "sum_type_sizes h (a # as) total_size =
     (case type_size h a of
        Inl err \<Rightarrow> Inl err
      | Inr s \<Rightarrow> sum_type_sizes h as (total_size + ucast s))"

text \<open>
  \<open>for (...) place_value(cif->arg_types[i], avalue[i], &current_value);\<close> where
  \<open>avalue\<close> is the vector of argument pointers.
\<close>

fun place_values :: "heap \<Rightarrow> memory \<Rightarrow> addr list \<Rightarrow> addr list \<Rightarrow> addr \<Rightarrow> error + memory \<times> addr" where
  "place_values h m [] avalue current_value = Inr (m, current_value)"
| "place_values h m (a # as) [] current_value = Inl Undefined"
| "place_values h m (a # as) (v # vs) current_value =
     (case place_value h m a v current_value of
        Inl err \<Rightarrow> Inl err
      | Inr (m1, current_value1) \<Rightarrow> place_values h m1 as vs current_value1)"

text \<open>The arguments \<open>ffi_call\<close> hands to \<open>impl_call_dynamic\<close>.\<close>

record dynamic_call =
  fn_ptr :: addr
  values_ptr :: addr
  values_len :: "32 word"
  results :: addr
  results_len :: "32 word"

text \<open>
  \<open>ffi_call\<close> up to the host call: the result is the memory at that point and the
  arguments of \<open>impl_call_dynamic\<close>.  \<open>values\<close> is the address of the local array
  \<open>uint8_t values[total_size]\<close>.
\<close>

definition ffi_call ::
  "heap \<Rightarrow> memory \<Rightarrow> ffi_cif \<Rightarrow> addr \<Rightarrow> addr \<Rightarrow> addr list \<Rightarrow> addr \<Rightarrow> error + memory \<times> dynamic_call" where
  "ffi_call h m cif fn rvalue avalue values =
     (case return_indirect h (rtype cif) of
        Inl err \<Rightarrow> Inl err
      | Inr indirect_return \<Rightarrow>
          (case (if indirect_return then type_size h (rtype cif) else Inr 0) of
             Inl err \<Rightarrow> Inl err
           | Inr rsize \<Rightarrow>
               (case arg_vector cif of
                  Inl err \<Rightarrow> Inl err
                | Inr as \<Rightarrow>
                    (case sum_type_sizes h as (ucast rsize) of
                       Inl err \<Rightarrow> Inl err
                     | Inr total_size \<Rightarrow>
                         (case place_values h
                                 (if indirect_return then store_le 4 m values rvalue else m)
                                 as avalue
                                 (if indirect_return then values + 4 else values) of
                            Inl err \<Rightarrow> Inl err
                          | Inr (m1, current_value) \<Rightarrow>
                              (case (if indirect_return then Inr 0 else type_size h (rtype cif)) of
                                 Inl err \<Rightarrow> Inl err
                               | Inr rlen \<Rightarrow>
                                   Inr (m1, \<lparr>fn_ptr = fn, values_ptr = values,
                                             values_len = total_size, results = rvalue,
                                             results_len = ucast rlen\<rparr>)))))))"

section \<open>Closure preparation\<close>

datatype wasm_type =
  FFI_WASM_TYPE_I32 | FFI_WASM_TYPE_I64 | FFI_WASM_TYPE_F32 | FFI_WASM_TYPE_F64

text \<open>\<open>place_type\<close>: the entries it writes at \<open>*types\<close>, in order.\<close>

definition place_type :: "heap \<Rightarrow> addr \<Rightarrow> error + wasm_type list" where
  "place_type h a =
     (case h a of
        None \<Rightarrow> Inl Undefined
      | Some t \<Rightarrow>
          (case type t of
             FFI_TYPE_VOID \<Rightarrow> Inr []
           | FFI_TYPE_SINT8 \<Rightarrow> Inr [FFI_WASM_TYPE_I32]
           | FFI_TYPE_UINT8 \<Rightarrow> Inr [FFI_WASM_TYPE_I32]
           | FFI_TYPE_UINT16 \<Rightarrow> Inr [FFI_WASM_TYPE_I32]
           | FFI_TYPE_SINT16 \<Rightarrow> Inr [FFI_WASM_TYPE_I32]
           | FFI_TYPE_UINT32 \<Rightarrow> Inr [FFI_WASM_TYPE_I32]
           | FFI_TYPE_INT \<Rightarrow> Inr [FFI_WASM_TYPE_I32]
           | FFI_TYPE_SINT32 \<Rightarrow> Inr [FFI_WASM_TYPE_I32]
           | FFI_TYPE_FLOAT \<Rightarrow> Inr [FFI_WASM_TYPE_F32]
           | FFI_TYPE_UINT64 \<Rightarrow> Inr [FFI_WASM_TYPE_I64]
           | FFI_TYPE_SINT64 \<Rightarrow> Inr [FFI_WASM_TYPE_I64]
           | FFI_TYPE_DOUBLE \<Rightarrow> Inr [FFI_WASM_TYPE_F64]
           | FFI_TYPE_POINTER \<Rightarrow> Inr [FFI_WASM_TYPE_I32]
           | FFI_TYPE_STRUCT \<Rightarrow> Inr [FFI_WASM_TYPE_I32]
           | FFI_TYPE_LONGDOUBLE \<Rightarrow> Inr [FFI_WASM_TYPE_I64, FFI_WASM_TYPE_I64]
           | FFI_TYPE_COMPLEX \<Rightarrow> Inl Abort
           | FFI_TYPE_UNKNOWN _ \<Rightarrow> Inl Abort))"

fun sum_arguments_count :: "heap \<Rightarrow> addr list \<Rightarrow> nat \<Rightarrow> error + nat" where
  "sum_arguments_count h [] argument_count = Inr argument_count"
| "sum_arguments_count h (a # as) argument_count =
     (case arguments_count h a of
        Inl err \<Rightarrow> Inl err
      | Inr c \<Rightarrow> sum_arguments_count h as (argument_count + unat c))"

fun place_types :: "heap \<Rightarrow> addr list \<Rightarrow> wasm_type list \<Rightarrow> error + wasm_type list" where
  "place_types h [] filled = Inr filled"
| "place_types h (a # as) filled =
     (case place_type h a of
        Inl err \<Rightarrow> Inl err
      | Inr ts \<Rightarrow> place_types h as (filled @ ts))"

text \<open>
  \<open>ffi_closure\<close> holds pointers; the field \<open>fun\<close> is called \<open>fun_ptr\<close> here.
\<close>

record ffi_closure =
  ftramp :: addr
  cif_ptr :: addr
  fun_ptr :: addr
  user_data :: addr

text \<open>The arguments of \<open>impl_closure_prepare\<close> (the backing function is fixed).\<close>

record closure_prepare =
  code :: addr
  argument_types :: "wasm_type list"
  argument_types_len :: nat
  result_types :: "wasm_type list"
  result_types_len :: nat
  user_data_ptr :: addr

text \<open>
  \<open>ffi_prep_closure_loc\<close>.  With \<open>__EMSCRIPTEN__\<close> it checks the ABI tag and hands over to
  the \<open>EM_JS\<close> helper \<open>ffi_prep_closure_loc_js\<close>, a parameter \<open>js\<close> here.  Without, it
  computes the wasm signature and calls the host through \<open>impl_closure_prepare\<close>, which
  aborts when the host primitive \<open>host\<close> reports an error and returns \<open>FFI_OK\<close>
  otherwise.  \<open>closure\<close> is the address of the closure object, \<open>cl\<close> its contents, \<open>cifp\<close>
  the address of the CIF.
\<close>

definition ffi_prep_closure_loc ::
  "bool \<Rightarrow> (addr \<Rightarrow> addr \<Rightarrow> addr \<Rightarrow> addr \<Rightarrow> addr \<Rightarrow> ffi_closure \<times> ffi_status) \<Rightarrow> (closure_prepare \<Rightarrow> 32 word)
     \<Rightarrow> heap \<Rightarrow> addr \<Rightarrow> ffi_closure \<Rightarrow> addr \<Rightarrow> ffi_cif \<Rightarrow> addr \<Rightarrow> addr \<Rightarrow> addr
     \<Rightarrow> error + ffi_closure \<times> ffi_status" where
  "ffi_prep_closure_loc emscripten js host h closure cl cifp cif fun userdata codeloc =
     (if emscripten then
        (if abi cif \<noteq> FFI_WASM32_EMSCRIPTEN then Inr (cl, FFI_BAD_ABI)
         else Inr (js closure cifp fun userdata codeloc))
      else if abi cif = FFI_WASM32_EMSCRIPTEN then Inr (cl, FFI_BAD_ABI)
      else
        (case return_indirect h (rtype cif) of
           Inl err \<Rightarrow> Inl err
         | Inr indirect_return \<Rightarrow>
             (case arguments_count h (rtype cif) of
                Inl err \<Rightarrow> Inl err
              | Inr rc \<Rightarrow>
                  (case arg_vector cif of
                     Inl err \<Rightarrow> Inl err
                   | Inr as \<Rightarrow>
                       (case sum_arguments_count h as (if indirect_return then unat rc else 0) of
                          Inl err \<Rightarrow> Inl err
                        | Inr argument_count \<Rightarrow>
                            (case place_type h (rtype cif) of
                               Inl err \<Rightarrow> Inl err
                             | Inr rts \<Rightarrow>
                                 (case place_types h as (if indirect_return then rts else []) of
                                    Inl err \<Rightarrow> Inl err
                                  | Inr ats \<Rightarrow>
                                      (if host \<lparr>code = codeloc, argument_types = ats,
                                                argument_types_len = argument_count,
                                                result_types = (if indirect_return then [] else rts),
                                                result_types_len = (if indirect_return then 0 else unat rc),
                                                user_data_ptr = closure\<rparr> \<noteq> 0
                                       then Inl Abort
                                       else Inr (cl\<lparr>cif_ptr := cifp, fun_ptr := fun,
                                                    user_data := userdata, ftramp := codeloc\<rparr>,
                                                 FFI_OK)))))))))"

section \<open>Canonical descriptors and well-formed stores\<close>

text \<open>
  The tag \<open>replace_type\<close> returns for a pointer whose descriptor it leaves alone; a null
  pointer counts as void.
\<close>

definition kind_of :: "heap \<Rightarrow> addr \<Rightarrow> ffi_kind" where
  "kind_of h a =
     (if a = 0 then FFI_TYPE_VOID
      else case h a of None \<Rightarrow> FFI_TYPE_VOID | Some t \<Rightarrow> type t)"

definition nonvoid_elements :: "heap \<Rightarrow> addr list \<Rightarrow> addr list" where
  "nonvoid_elements h es = filter (\<lambda>e. kind_of h e \<noteq> FFI_TYPE_VOID) es"

text \<open>
  The element vectors of the structs \<open>replace_type\<close> keeps as structs: more than one
  non-void element, or a single one that is itself a struct.
\<close>

definition kept_struct :: "heap \<Rightarrow> addr list \<Rightarrow> bool" where
  "kept_struct h es =
     (case nonvoid_elements h es of
        [] \<Rightarrow> False
      | [e] \<Rightarrow> kind_of h e = FFI_TYPE_STRUCT
      | _ \<Rightarrow> True)"

text \<open>
  \<open>canonical n h a\<close>: the descriptor at \<open>a\<close> and everything under it, to a depth below
  \<open>n\<close>, is in the form \<open>replace_type\<close> produces for an argument.
\<close>

fun canonical :: "nat \<Rightarrow> heap \<Rightarrow> addr \<Rightarrow> bool" where
  "canonical 0 h a = False"
| "canonical (Suc n) h a =
     (a = 0 \<or>
      (case h a of
         None \<Rightarrow> False
       | Some t \<Rightarrow>
           type t \<noteq> FFI_TYPE_COMPLEX \<and>
           (type t = FFI_TYPE_STRUCT \<longrightarrow>
              size_bytes t \<noteq> 0 \<and> (\<forall>e \<in> set (elements t). canonical n h e) \<and>
              kept_struct h (elements t))))"

text \<open>
  What the static descriptors hold: \<open>ffi_type_float\<close>, \<open>ffi_type_double\<close> and
  \<open>ffi_type_sint64\<close> their scalar, \<open>ffi_type_longdouble\<close> either the scalar or the
  struct of two \<open>ffi_type_sint64\<close> an earlier canonicalisation in return position left
  there.
\<close>

definition statics_ok :: "statics \<Rightarrow> heap \<Rightarrow> bool" where
  "statics_ok G h =
     (kind_of h (ffi_type_float G) = FFI_TYPE_FLOAT \<and>
      kind_of h (ffi_type_double G) = FFI_TYPE_DOUBLE \<and>
      ffi_type_sint64 G \<noteq> 0 \<and>
      (case h (ffi_type_sint64 G) of
         None \<Rightarrow> False
       | Some t \<Rightarrow> type t = FFI_TYPE_SINT64 \<and> size_bytes t = 8) \<and>
      ffi_type_longdouble G \<noteq> 0 \<and>
      (case h (ffi_type_longdouble G) of
         None \<Rightarrow> False
       | Some t \<Rightarrow>
           type t = FFI_TYPE_LONGDOUBLE \<or>
           (type t = FFI_TYPE_STRUCT \<and> size_bytes t \<noteq> 0 \<and>
            elements t = [ffi_type_sint64 G, ffi_type_sint64 G])))"

text \<open>
  The descriptors form a directed acyclic graph: \<open>r\<close> ranks every descriptor above its
  elements, and the descriptors \<open>replace_type\<close> gives new elements above the static
  descriptors it installs.
\<close>

definition ranked :: "(addr \<Rightarrow> nat) \<Rightarrow> statics \<Rightarrow> heap \<Rightarrow> bool" where
  "ranked r G h =
     (\<forall>a t. h a = Some t \<longrightarrow>
        (\<forall>e \<in> set (elements t). r e < r a) \<and>
        (type t = FFI_TYPE_COMPLEX \<longrightarrow>
           r (ffi_type_float G) < r a \<and> r (ffi_type_double G) < r a \<and>
           r (ffi_type_longdouble G) < r a \<and> r (ffi_type_sint64 G) < r a) \<and>
        (type t = FFI_TYPE_LONGDOUBLE \<or> type t = FFI_TYPE_STRUCT \<longrightarrow>
           r (ffi_type_sint64 G) < r a))"

text \<open>
  The element type of a complex type is not itself complex, and twice its size is
  not 0 (that is the size \<open>replace_type\<close> gives the struct that replaces the complex type).
\<close>

definition complex_ok :: "heap \<Rightarrow> bool" where
  "complex_ok h =
     (\<forall>a t. h a = Some t \<longrightarrow> type t = FFI_TYPE_COMPLEX \<longrightarrow>
        (case elements t of
           [] \<Rightarrow> True
         | c # _ \<Rightarrow>
             (case h c of
                None \<Rightarrow> True
              | Some ct \<Rightarrow> type ct \<noteq> FFI_TYPE_COMPLEX \<and> size_bytes ct * 2 \<noteq> 0)))"

definition well_formed :: "(addr \<Rightarrow> nat) \<Rightarrow> statics \<Rightarrow> heap \<Rightarrow> bool" where
  "well_formed r G h = (statics_ok G h \<and> ranked r G h \<and> complex_ok h)"

text \<open>
  Every pointer in an element vector is null or refers to a descriptor of the store,
  and the element type of a complex type is there and is \<open>float\<close>, \<open>double\<close> or
  \<open>long double\<close>, the three tags the COMPLEX branch of \<open>replace_type\<close> knows.
\<close>

definition all_present :: "heap \<Rightarrow> bool" where
  "all_present h =
     (\<forall>a t. h a = Some t \<longrightarrow>
        (\<forall>e \<in> set (elements t). e = 0 \<or> h e \<noteq> None) \<and>
        (type t = FFI_TYPE_COMPLEX \<longrightarrow>
           (case elements t of
              [] \<Rightarrow> False
            | c # _ \<Rightarrow>
                (case h c of
                   None \<Rightarrow> False
                 | Some ct \<Rightarrow>
                     type ct = FFI_TYPE_FLOAT \<or> type ct = FFI_TYPE_DOUBLE \<or>
                     type ct = FFI_TYPE_LONGDOUBLE))))"

text \<open>
  \<open>reshaped h h'\<close>: the store \<open>h'\<close> has the descriptors of \<open>h\<close>, where a descriptor that
  was not complex differs at most in its tag, which is not COMPLEX, and a complex
  descriptor is the same or no longer complex.
\<close>

definition reshaped :: "heap \<Rightarrow> heap \<Rightarrow> bool" where
  "reshaped h h' =
     (\<forall>b. case h b of
        None \<Rightarrow> h' b = None
      | Some t \<Rightarrow>
          (\<exists>t'. h' b = Some t' \<and>
             (if type t = FFI_TYPE_COMPLEX then t' = t \<or> type t' \<noteq> FFI_TYPE_COMPLEX
              else type t' \<noteq> FFI_TYPE_COMPLEX \<and> t' = t\<lparr>type := type t'\<rparr>)))"

text \<open>
  The descriptors reachable from a set of roots through the element vectors of
  structs.
\<close>

inductive_set reachable :: "heap \<Rightarrow> addr set \<Rightarrow> addr set" for h :: heap and roots :: "addr set" where
  root: "a \<in> roots \<Longrightarrow> a \<noteq> 0 \<Longrightarrow> a \<in> reachable h roots"
| element: "b \<in> reachable h roots \<Longrightarrow> h b = Some t \<Longrightarrow> type t = FFI_TYPE_STRUCT \<Longrightarrow>
     e \<in> set (elements t) \<Longrightarrow> e \<noteq> 0 \<Longrightarrow> e \<in> reachable h roots"

section \<open>Example stores\<close>

text \<open>
  A store with the static descriptors and a few user types, used to run the
  functions on concrete inputs: \<open>struct T {int; int}\<close> at \<open>0x100\<close>,
  \<open>struct S {struct T}\<close> at \<open>0x110\<close>, \<open>struct L {long double}\<close> at \<open>0x120\<close>,
  \<open>struct I {int}\<close> at \<open>0x130\<close> and \<open>float _Complex\<close> at \<open>0x140\<close>.
\<close>

definition descriptor :: "32 word \<Rightarrow> 16 word \<Rightarrow> ffi_kind \<Rightarrow> addr list \<Rightarrow> ffi_type" where
  "descriptor s al k es = \<lparr>size_bytes = s, alignment = al, type = k, elements = es\<rparr>"

definition example_statics :: statics where
  "example_statics =
     \<lparr>ffi_type_float = 0x20, ffi_type_double = 0x30, ffi_type_longdouble = 0x40,
      ffi_type_sint64 = 0x10\<rparr>"

definition example_heap :: heap where
  "example_heap =
     [0x10 \<mapsto> descriptor 8 8 FFI_TYPE_SINT64 [],
      0x20 \<mapsto> descriptor 4 4 FFI_TYPE_FLOAT [],
      0x30 \<mapsto> descriptor 8 8 FFI_TYPE_DOUBLE [],
      0x40 \<mapsto> descriptor 16 16 FFI_TYPE_LONGDOUBLE [],
      0x50 \<mapsto> descriptor 4 4 FFI_TYPE_SINT32 [],
      0x100 \<mapsto> descriptor 8 4 FFI_TYPE_STRUCT [0x50, 0x50],
      0x110 \<mapsto> descriptor 8 4 FFI_TYPE_STRUCT [0x100],
      0x120 \<mapsto> descriptor 16 16 FFI_TYPE_STRUCT [0x40],
      0x130 \<mapsto> descriptor 4 4 FFI_TYPE_STRUCT [0x50],
      0x140 \<mapsto> descriptor 8 4 FFI_TYPE_COMPLEX [0x20]]"

definition example_cif :: "ffi_abi \<Rightarrow> addr list \<Rightarrow> addr \<Rightarrow> ffi_cif" where
  "example_cif a as r =
     \<lparr>abi = a, nargs = of_nat (length as), arg_types = as, rtype = r, flags = 0,
      nfixedargs = of_nat (length as)\<rparr>"

definition example_closure :: ffi_closure where
  "example_closure = \<lparr>ftramp = 0, cif_ptr = 0, fun_ptr = 0, user_data = 0\<rparr>"

section \<open>Properties\<close>

subsection \<open>Variadic preparation without \<open>__EMSCRIPTEN__\<close>\<close>

lemma or_one_eq: "(w OR 1 = (w::32 word)) = bit w 0"
proof
  assume "w OR 1 = w"
  then have "bit (w OR 1) 0 = bit w 0" by simp
  then show "bit w 0" by (simp add: bit_or_iff)
next
  assume b: "bit w 0"
  show "w OR 1 = w"
    by (rule bit_word_eqI) (use b in \<open>auto simp add: bit_or_iff bit_1_iff\<close>)
qed

text \<open>
  C10.  In the build without \<open>__EMSCRIPTEN__\<close>, \<open>ffi_prep_cif_machdep_var\<close> returns
  \<open>FFI_BAD_ABI\<close> for every CIF and all arguments, and has by then set the VARARGS bit
  of \<open>cif->flags\<close> and overwritten \<open>cif->nfixedargs\<close> with the argument \<open>nfixedargs\<close>.
  The CIF is unchanged only if the bit was already set and the count already equal.
\<close>

theorem prep_cif_machdep_var_bad_abi_mutates:
  "ffi_prep_cif_machdep_var False cif nfixed ntotal =
     (cif\<lparr>flags := flags cif OR VARARGS_FLAG, nfixedargs := nfixed\<rparr>, FFI_BAD_ABI)
   \<and> bit (flags (fst (ffi_prep_cif_machdep_var False cif nfixed ntotal))) 0
   \<and> nfixedargs (fst (ffi_prep_cif_machdep_var False cif nfixed ntotal)) = nfixed
   \<and> (fst (ffi_prep_cif_machdep_var False cif nfixed ntotal) = cif) =
       (bit (flags cif) 0 \<and> nfixedargs cif = nfixed)"
  apply (simp add: ffi_prep_cif_machdep_var_def VARARGS_FLAG_def Let_def bit_simps)
  apply (cases cif)
  apply (auto simp add: or_one_eq)
  done

theorem prep_cif_machdep_var_bad_abi_mutates_witness:
  "ffi_prep_cif_machdep_var False (example_cif FFI_WASM32 [0x50, 0x50] 0x50) 1 2 =
     (\<lparr>abi = FFI_WASM32, nargs = 2, arg_types = [0x50, 0x50], rtype = 0x50, flags = 1,
       nfixedargs = 1\<rparr>, FFI_BAD_ABI)"
  using prep_cif_machdep_var_bad_abi_mutates
    [of "example_cif FFI_WASM32 [0x50, 0x50] 0x50" 1 2]
  by (simp add: example_cif_def VARARGS_FLAG_def)

subsection \<open>Long double in return position\<close>

text \<open>
  C8.  For a descriptor \<open>t\<close> of kind LONGDOUBLE, \<open>replace_type(t, true)\<close> rewrites \<open>t\<close> in place
  to a struct whose two elements are \<open>ffi_type_sint64\<close>, with size 16 (twice the size
  of \<open>ffi_type_sint64\<close>) and alignment 16, and returns STRUCT; the elements are 64-bit
  signed integers in the store after the call.
\<close>

theorem replace_type_longdouble_result:
  assumes "t \<noteq> 0" and "h t = Some d" and "type d = FFI_TYPE_LONGDOUBLE"
      and "h (ffi_type_sint64 G) = Some s" and "type s = FFI_TYPE_SINT64" and "size_bytes s = 8"
  shows "replace_type (Suc fuel) G h t True =
           Inr (h(t \<mapsto> d\<lparr>type := FFI_TYPE_STRUCT, size_bytes := 16, alignment := 16,
                          elements := [ffi_type_sint64 G, ffi_type_sint64 G]\<rparr>), FFI_TYPE_STRUCT)
         \<and> (h(t \<mapsto> d\<lparr>type := FFI_TYPE_STRUCT, size_bytes := 16, alignment := 16,
                          elements := [ffi_type_sint64 G, ffi_type_sint64 G]\<rparr>))
             (ffi_type_sint64 G) = Some s"
  using assms by auto

theorem replace_type_longdouble_result_witness:
  "replace_type (Suc 0) example_statics example_heap 0x40 True =
     Inr (example_heap(0x40 \<mapsto> descriptor 16 16 FFI_TYPE_STRUCT [0x10, 0x10]), FFI_TYPE_STRUCT)"
  using replace_type_longdouble_result
    [of "0x40" example_heap "descriptor 16 16 FFI_TYPE_LONGDOUBLE []" example_statics
        "descriptor 8 8 FFI_TYPE_SINT64 []" 0]
  by (simp add: example_heap_def example_statics_def descriptor_def)

subsection \<open>Indirect return\<close>

text \<open>
  C2.  \<open>return_indirect\<close> answers true exactly for a non-null pointer to a descriptor of
  kind STRUCT.  It answers false for the null pointer and for the kinds VOID, INT,
  the 8-, 16-, 32- and 64-bit integers, FLOAT, DOUBLE and POINTER.
\<close>

theorem return_indirect_iff_struct:
  "(return_indirect h a = Inr True) =
     (a \<noteq> 0 \<and> (\<exists>t. h a = Some t \<and> type t = FFI_TYPE_STRUCT))
   \<and> (a = 0 \<or> (\<exists>t. h a = Some t \<and> type t \<in>
          {FFI_TYPE_VOID, FFI_TYPE_INT, FFI_TYPE_UINT8, FFI_TYPE_SINT8, FFI_TYPE_UINT16,
           FFI_TYPE_SINT16, FFI_TYPE_UINT32, FFI_TYPE_SINT32, FFI_TYPE_UINT64,
           FFI_TYPE_SINT64, FFI_TYPE_FLOAT, FFI_TYPE_DOUBLE, FFI_TYPE_POINTER})
       \<longrightarrow> return_indirect h a = Inr False)"
  by (auto simp add: return_indirect_def split: option.splits ffi_kind.splits)

theorem return_indirect_iff_struct_witness:
  "return_indirect example_heap 0x100 = Inr True \<and> return_indirect example_heap 0x30 = Inr False
   \<and> return_indirect example_heap 0 = Inr False"
  using return_indirect_iff_struct [of example_heap "0x100"]
    return_indirect_iff_struct [of example_heap "0x30"]
    return_indirect_iff_struct [of example_heap 0]
  by (simp add: example_heap_def descriptor_def)

subsection \<open>Runs of \<open>ffi_prep_cif_machdep\<close> on the example store\<close>

lemma prep_cif_common_status:
  "snd (prep_cif_common cif) = (if MAX_ARGS < unat (nargs cif) then FFI_BAD_TYPEDEF else FFI_OK)"
  by (simp add: prep_cif_common_def Let_def)

lemma complex_argument_False:
  "\<forall>a \<in> set as. \<forall>t. h a = Some t \<longrightarrow> type t \<noteq> FFI_TYPE_COMPLEX \<Longrightarrow>
   complex_argument h as \<noteq> Inr True"
  by (induction as) (auto split: option.splits)

lemma complex_argument_error:
  "complex_argument h as = Inl err \<Longrightarrow> err = Undefined"
  by (induction as) (auto split: option.splits if_splits)

lemma replace_args_scalars:
  "\<forall>a \<in> set as. a = 0x50 \<Longrightarrow>
   replace_args (Suc 0) example_statics example_heap as = Inr example_heap"
  by (induction as) (auto simp add: example_heap_def descriptor_def)

lemma many_args_run:
  "ffi_prep_cif_machdep False (Suc 0) example_statics example_heap
      (example_cif FFI_WASM32 (replicate 1001 0x50) 0) =
   Inr (example_heap, example_cif FFI_WASM32 (replicate 1001 0x50) 0, FFI_BAD_TYPEDEF)"
  by (simp add: ffi_prep_cif_machdep_def arg_vector_def replace_args_scalars prep_cif_common_def
      example_cif_def MAX_ARGS_def VARARGS_FLAG_def)

lemma two_args_run:
  "ffi_prep_cif_machdep False (Suc 0) example_statics example_heap
      (example_cif FFI_WASM32 [0x50, 0x50] 0x50) =
   Inr (example_heap, example_cif FFI_WASM32 [0x50, 0x50] 0x50, FFI_OK)"
  by (simp add: ffi_prep_cif_machdep_def arg_vector_def replace_args_scalars prep_cif_common_def
      example_cif_def MAX_ARGS_def VARARGS_FLAG_def example_heap_def descriptor_def)

lemma emscripten_two_args_run:
  "ffi_prep_cif_machdep True 0 example_statics example_heap
      (example_cif FFI_WASM32_EMSCRIPTEN [0x50, 0x50] 0x50) =
   Inr (example_heap, example_cif FFI_WASM32_EMSCRIPTEN [0x50, 0x50] 0x50, FFI_OK)"
  by (simp add: ffi_prep_cif_machdep_def arg_vector_def prep_cif_common_def
      example_cif_def MAX_ARGS_def VARARGS_FLAG_def example_heap_def descriptor_def)

subsection \<open>ABI tags\<close>

text \<open>
  C4 fails on the code.  Built without \<open>__EMSCRIPTEN__\<close>, \<open>ffi_prep_cif_machdep\<close> has no
  check of the ABI tag: it returns \<open>FFI_OK\<close> for a CIF tagged \<open>FFI_WASM32_EMSCRIPTEN\<close> and
  for a CIF with a tag that is neither of the two known ones.  The same function built
  with \<open>__EMSCRIPTEN__\<close> refuses the tag that is not its own, and so does
  \<open>ffi_prep_closure_loc\<close> built without \<open>__EMSCRIPTEN__\<close> for the tag
  \<open>FFI_WASM32_EMSCRIPTEN\<close>.
\<close>

theorem prep_cif_machdep_accepts_foreign_abi:
  "ffi_prep_cif_machdep False (Suc 0) example_statics example_heap
      (example_cif FFI_WASM32_EMSCRIPTEN [] 0) =
   Inr (example_heap, example_cif FFI_WASM32_EMSCRIPTEN [] 0, FFI_OK)
   \<and> ffi_prep_cif_machdep False (Suc 0) example_statics example_heap
      (example_cif (FFI_ABI_OTHER 7) [] 0) =
   Inr (example_heap, example_cif (FFI_ABI_OTHER 7) [] 0, FFI_OK)
   \<and> ffi_prep_cif_machdep True (Suc 0) example_statics example_heap
      (example_cif FFI_WASM32 [] 0) =
   Inr (example_heap, example_cif FFI_WASM32 [] 0, FFI_BAD_ABI)
   \<and> ffi_prep_closure_loc False (\<lambda>_ _ _ _ _. (example_closure, FFI_OK)) (\<lambda>_. 0) example_heap
        0x200 example_closure 0x300 (example_cif FFI_WASM32_EMSCRIPTEN [] 0) 1 2 3 =
      Inr (example_closure, FFI_BAD_ABI)"
  by (simp add: ffi_prep_cif_machdep_def example_cif_def arg_vector_def prep_cif_common_def
      MAX_ARGS_def VARARGS_FLAG_def ffi_prep_closure_loc_def)

text \<open>
  The checks that are there: with \<open>__EMSCRIPTEN__\<close> both entry points refuse every tag
  but \<open>FFI_WASM32_EMSCRIPTEN\<close> and change nothing; without, \<open>ffi_prep_closure_loc\<close>
  refuses \<open>FFI_WASM32_EMSCRIPTEN\<close>.
\<close>

lemma abi_checks:
  "(abi cif \<noteq> FFI_WASM32_EMSCRIPTEN \<longrightarrow>
      ffi_prep_cif_machdep True fuel G h cif = Inr (h, cif, FFI_BAD_ABI) \<and>
      ffi_prep_closure_loc True js host h closure cl cifp cif f u c = Inr (cl, FFI_BAD_ABI))
   \<and> (abi cif = FFI_WASM32_EMSCRIPTEN \<longrightarrow>
      ffi_prep_closure_loc False js host h closure cl cifp cif f u c = Inr (cl, FFI_BAD_ABI))"
  by (simp add: ffi_prep_cif_machdep_def ffi_prep_closure_loc_def)

text \<open>
  Without \<open>__EMSCRIPTEN__\<close> the tag has no part in what \<open>ffi_prep_cif_machdep\<close> does: with
  another tag the call fails or returns as before, with the same store, the same
  status and the same CIF but for the tag.
\<close>

lemma prep_cif_common_abi:
  "prep_cif_common (cif\<lparr>abi := x\<rparr>) =
     (fst (prep_cif_common cif)\<lparr>abi := x\<rparr>, snd (prep_cif_common cif))"
  by (simp add: prep_cif_common_def Let_def)

lemma prep_cif_machdep_ignores_abi:
  "ffi_prep_cif_machdep False fuel G h (cif\<lparr>abi := x\<rparr>) =
     (case ffi_prep_cif_machdep False fuel G h cif of
        Inl err \<Rightarrow> Inl err
      | Inr (h', cif', st) \<Rightarrow> Inr (h', cif'\<lparr>abi := x\<rparr>, st))"
  by (simp add: ffi_prep_cif_machdep_def arg_vector_def prep_cif_common_abi
      split: sum.splits prod.splits)

subsection \<open>Bytes in memory\<close>

lemma bit_load_le:
  "bit (load_le n m a :: 'a::len word) j =
     (j < LENGTH('a) \<and> j div 8 < n \<and> bit (m (a + of_nat (j div 8))) (j mod 8))"
  using bit_horner_sum_uint_exp_iff [where ?'a = 8, of "object_bytes m a n" j]
  by (auto simp add: load_le_def bit_word_of_int_iff object_bytes_def)

lemma unat_offset: "i < 2 ^ 32 \<Longrightarrow> unat (a + of_nat i - a :: 32 word) = i"
  by (simp add: unat_of_nat)

lemma store_le_inside:
  "i < n \<Longrightarrow> i < 2 ^ 32 \<Longrightarrow>
   store_le n m a w (a + of_nat i) = ucast (drop_bit (8 * i) w)"
  by (simp add: store_le_def unat_of_nat)

lemma byte_of_load:
  fixes m :: memory
  assumes "i < n" and "8 * n \<le> LENGTH('a::len)"
  shows "ucast (drop_bit (8 * i) (load_le n m v :: 'a word)) = m (v + of_nat i)"
proof (rule bit_word_eqI)
  fix j assume "j < LENGTH(8)"
  then have j: "j < 8" by simp
  then have "(8 * i + j) div 8 = i" "(8 * i + j) mod 8 = j" by auto
  moreover have "8 * i + j < LENGTH('a)" using assms j by auto
  ultimately show "bit (ucast (drop_bit (8 * i) (load_le n m v :: 'a word)) :: 8 word) j = bit (m (v + of_nat i)) j"
    using j assms by (simp add: bit_word_ucast_iff bit_drop_bit_eq bit_load_le add.commute)
qed

lemma byte_of_ucast:
  fixes w :: "'a::len word"
  assumes "8 * i + 8 \<le> LENGTH('a)" "LENGTH('a) \<le> LENGTH('b::len)"
  shows "(ucast (drop_bit (8 * i) (ucast w :: 'b word)) :: 8 word) = ucast (drop_bit (8 * i) w)"
proof (rule bit_word_eqI)
  fix j assume "j < LENGTH(8)"
  then have j: "j < 8" by simp
  then show "bit (ucast (drop_bit (8 * i) (ucast w :: 'b word)) :: 8 word) j = bit (ucast (drop_bit (8 * i) w) :: 8 word) j"
    using assms by (auto simp add: bit_word_ucast_iff bit_drop_bit_eq)
qed

lemma byte_of_scast:
  fixes w :: "'a::len word"
  assumes "8 * i + 8 \<le> LENGTH('a)" "LENGTH('a) \<le> LENGTH('b::len)"
  shows "(ucast (drop_bit (8 * i) (scast w :: 'b word)) :: 8 word) = ucast (drop_bit (8 * i) w)"
proof (rule bit_word_eqI)
  fix j assume "j < LENGTH(8)"
  then have j: "j < 8" by simp
  then show "bit (ucast (drop_bit (8 * i) (scast w :: 'b word)) :: 8 word) j = bit (ucast (drop_bit (8 * i) w) :: 8 word) j"
    using assms by (auto simp add: bit_word_ucast_iff bit_word_scast_iff bit_drop_bit_eq)
qed

lemma load_store_same:
  fixes w :: "'a::len word"
  assumes "LENGTH('a) \<le> 8 * n" "n \<le> 2 ^ 32"
  shows "load_le n (store_le n m a w) a = w"
proof (rule bit_word_eqI)
  fix j assume j: "j < LENGTH('a)"
  then have d: "j div 8 < n" using assms by auto
  then have "j div 8 < 2 ^ 32" using assms by simp
  have e: "8 * (j div 8) + j mod 8 = j" by simp
  have f: "j mod 8 < LENGTH('a)" using j by (rule le_less_trans [OF mod_less_eq_dividend])
  show "bit (load_le n (store_le n m a w) a :: 'a word) j = bit w j"
    using j d f \<open>j div 8 < 2 ^ 32\<close>
    by (simp add: bit_load_le store_le_inside bit_word_ucast_iff bit_drop_bit_eq e)
qed


lemma object_bytes_stored:
  assumes "k \<le> n" and "n \<le> 2 ^ 32"
      and "\<And>i. i < k \<Longrightarrow> ucast (drop_bit (8 * i) w) = m (v + of_nat i)"
  shows "object_bytes (store_le n m c w) c k = object_bytes m v k"
proof -
  have "store_le n m c w (c + of_nat i) = m (v + of_nat i)" if "i < k" for i
  proof -
    from that assms have "i < n" "i < 2 ^ 32" by auto
    then show ?thesis using assms(3) [OF that] by (simp add: store_le_inside)
  qed
  then show ?thesis by (simp add: object_bytes_def)
qed

lemma lowered_copy:
  assumes "8 * k \<le> LENGTH('a::len)" and "k \<le> n" and "n \<le> 2 ^ 32"
  shows "object_bytes (store_le n m c (load_le k m v :: 'a word)) c k = object_bytes m v k"
  using assms by (intro object_bytes_stored) (simp_all add: byte_of_load)

lemma lowered_ucast:
  assumes "8 * k = LENGTH('a::len)" and "LENGTH('a) \<le> LENGTH('b::len)" and "k \<le> n" and "n \<le> 2 ^ 32"
  shows "object_bytes (store_le n m c (ucast (load_le k m v :: 'a word) :: 'b word)) c k = object_bytes m v k"
proof (rule object_bytes_stored [OF assms(3,4)])
  fix i assume "i < k"
  then have "8 * i + 8 \<le> LENGTH('a)" using assms(1) by linarith
  then show "ucast (drop_bit (8 * i) (ucast (load_le k m v :: 'a word) :: 'b word)) = m (v + of_nat i)"
    using \<open>i < k\<close> assms by (simp add: byte_of_ucast byte_of_load)
qed

lemma lowered_scast:
  assumes "8 * k = LENGTH('a::len)" and "LENGTH('a) \<le> LENGTH('b::len)" and "k \<le> n" and "n \<le> 2 ^ 32"
  shows "object_bytes (store_le n m c (scast (load_le k m v :: 'a word) :: 'b word)) c k = object_bytes m v k"
proof (rule object_bytes_stored [OF assms(3,4)])
  fix i assume "i < k"
  then have "8 * i + 8 \<le> LENGTH('a)" using assms(1) by linarith
  then show "ucast (drop_bit (8 * i) (scast (load_le k m v :: 'a word) :: 'b word)) = m (v + of_nat i)"
    using \<open>i < k\<close> assms by (simp add: byte_of_scast byte_of_load)
qed

subsection \<open>Lowering and raising one value\<close>

text \<open>
  C5.  For a descriptor whose kind is one of the canonical kinds other than STRUCT,
  \<open>place_value\<close> followed by \<open>take_value\<close> at the same cursor returns the cursor as the
  pointer, and the bytes of an object of that type read through it are the bytes
  of the value that was lowered.  Both advance the cursor by \<open>type_size\<close>.  The 8- and
  16-bit integers fill their 32-bit slot zero-extended when unsigned and
  sign-extended when signed.
\<close>

theorem place_take_round_trip:
  assumes "a \<noteq> 0" and "h a = Some t"
      and "type t \<noteq> FFI_TYPE_STRUCT" and "type t \<noteq> FFI_TYPE_COMPLEX"
      and "\<forall>n. type t \<noteq> FFI_TYPE_UNKNOWN n"
  shows "\<exists>m' s. type_size h a = Inr s
           \<and> place_value h m a v values = Inr (m', values + ucast s)
           \<and> take_value h m' a values = Inr (values, values + ucast s)
           \<and> object_bytes m' values (object_size (type t)) = object_bytes m v (object_size (type t))
           \<and> (type t = FFI_TYPE_UINT8 \<longrightarrow>
                (load_le 4 m' values :: 32 word) = ucast (load_le 1 m v :: 8 word))
           \<and> (type t = FFI_TYPE_SINT8 \<longrightarrow>
                (load_le 4 m' values :: 32 word) = scast (load_le 1 m v :: 8 word))
           \<and> (type t = FFI_TYPE_UINT16 \<longrightarrow>
                (load_le 4 m' values :: 32 word) = ucast (load_le 2 m v :: 16 word))
           \<and> (type t = FFI_TYPE_SINT16 \<longrightarrow>
                (load_le 4 m' values :: 32 word) = scast (load_le 2 m v :: 16 word))"
  using assms
  by (cases "type t")
    (simp_all add: type_size_def place_value_def take_value_def object_size_def
      lowered_copy lowered_ucast lowered_scast object_bytes_def [of _ _ 0] load_store_same)

theorem place_take_round_trip_witness:
  "\<exists>m' s. type_size example_heap 0x50 = Inr s
     \<and> place_value example_heap (\<lambda>x. ucast x) 0x50 0x1000 0x2000 = Inr (m', 0x2000 + ucast s)
     \<and> take_value example_heap m' 0x50 0x2000 = Inr (0x2000, 0x2000 + ucast s)
     \<and> object_bytes m' 0x2000 4 = object_bytes (\<lambda>x. ucast x) 0x1000 4"
  using place_take_round_trip [of "0x50" example_heap "descriptor 4 4 FFI_TYPE_SINT32 []"
      "\<lambda>x. ucast x" "0x1000" "0x2000"]
  by (simp add: example_heap_def descriptor_def object_size_def)

subsection \<open>The values buffer of \<open>ffi_call\<close>\<close>

lemma type_size_le: "type_size h a = Inr s \<Longrightarrow> unat s \<le> 16"
  by (auto simp add: type_size_def split: if_splits option.splits ffi_kind.splits)

lemma sum_type_sizes_total:
  "sum_type_sizes h as acc = Inr tsz \<Longrightarrow>
   \<exists>ss. list_all2 (\<lambda>a s. type_size h a = Inr s) as ss \<and>
        tsz = acc + of_nat (sum_list (map unat ss))"
proof (induction as arbitrary: acc)
  case Nil
  then show ?case by simp
next
  case (Cons a as)
  from Cons.prems obtain s where s: "type_size h a = Inr s"
    and rest: "sum_type_sizes h as (acc + ucast s) = Inr tsz"
    by (auto split: sum.splits)
  from Cons.IH [OF rest] obtain ss where ss: "list_all2 (\<lambda>a s. type_size h a = Inr s) as ss"
    and t: "tsz = acc + ucast s + of_nat (sum_list (map unat ss))" by blast
  have "list_all2 (\<lambda>a s. type_size h a = Inr s) (a # as) (s # ss)" using s ss by simp
  moreover have "tsz = acc + of_nat (sum_list (map unat (s # ss)))"
    using t by simp
  ultimately show ?case by blast
qed

lemma sizes_bounded:
  "list_all2 (\<lambda>a s. type_size h a = Inr s) as ss \<Longrightarrow> sum_list (map unat ss) \<le> 16 * length as"
proof (induction rule: list_all2_induct)
  case Nil
  then show ?case by simp
next
  case (Cons a as s ss)
  then show ?case using type_size_le [of h a s] by simp
qed

lemma store_frame:
  "k \<le> 16 \<Longrightarrow>
   \<exists>n\<le>16. cur + of_nat k = cur + of_nat n \<and>
           (\<forall>x. n \<le> unat (x - cur) \<longrightarrow> store_le k m cur w x = m x)"
  by (rule exI [of _ k]) (simp add: store_le_def)

lemma place_value_frame:
  assumes "place_value h m a v cur = Inr (m', cur')"
  shows "\<exists>n\<le>16. cur' = cur + of_nat n \<and> (\<forall>x. n \<le> unat (x - cur) \<longrightarrow> m' x = m x)"
proof -
  from assms obtain t where t: "h a = Some t"
    by (auto simp add: place_value_def split: option.splits)
  have z: "\<exists>n\<le>16. cur = cur + of_nat n \<and> (\<forall>x. n \<le> unat (x - cur) \<longrightarrow> m x = m x)"
    by (rule exI [of _ 0]) simp
  show ?thesis
    using assms t z
      store_frame [of 4 cur m, simplified] store_frame [of 8 cur m, simplified]
      store_frame [of 16 cur m, simplified]
    by (cases "type t") (auto simp add: place_value_def)
qed

lemma place_values_frame:
  "place_values h m as vs cur = Inr (m', cur') \<Longrightarrow>
   (\<forall>x. 16 * length as \<le> unat (x - cur) \<longrightarrow> m' x = m x)"
proof (induction as arbitrary: m vs cur)
  case Nil
  then show ?case by simp
next
  case (Cons a as)
  from Cons.prems obtain v vs' m1 cur1 where vs: "vs = v # vs'"
    and first: "place_value h m a v cur = Inr (m1, cur1)"
    and rest: "place_values h m1 as vs' cur1 = Inr (m', cur')"
    by (cases vs) (auto split: sum.splits)
  from place_value_frame [OF first] obtain n where n: "n \<le> 16" "cur1 = cur + of_nat n"
    and fr: "\<forall>x. n \<le> unat (x - cur) \<longrightarrow> m1 x = m x" by blast
  show ?case
  proof (intro allI impI)
    fix x assume x: "16 * length (a # as) \<le> unat (x - cur)"
    then have nx: "n \<le> unat (x - cur)" using n by simp
    have "unat (of_nat n :: 32 word) = n" using n by (simp add: unat_of_nat)
    then have le: "(of_nat n :: 32 word) \<le> x - cur" using nx by (simp add: word_le_nat_alt)
    have eq: "x - cur1 = x - cur - of_nat n" unfolding n(2) by (simp only: diff_diff_eq)
    have "unat (x - cur1) = unat (x - cur) - n"
      by (simp only: eq unat_sub [OF le] \<open>unat (of_nat n :: 32 word) = n\<close>)
    then have "16 * length as \<le> unat (x - cur1)" using x n by simp
    with Cons.IH [OF rest] have "m' x = m1 x" by blast
    with fr nx show "m' x = m x" by simp
  qed
qed

lemma load_le_cong:
  "object_bytes m' a n = object_bytes m a n \<Longrightarrow> (load_le n m' a :: 'a::len word) = load_le n m a"
  by (simp add: load_le_def)

lemma hidden_pointer_kept:
  fixes rvalue :: addr
  assumes run: "place_values h (store_le 4 m values rvalue) as vs (values + 4) = Inr (m', cur')"
      and len: "length as \<le> 1000"
  shows "load_le 4 m' values = rvalue"
proof -
  have keep: "m' (values + of_nat i) = store_le 4 m values rvalue (values + of_nat i)" if "i < 4" for i
  proof -
    have "values + of_nat i - (values + 4) = (of_nat i :: 32 word) - 4" by simp
    moreover have "unat ((of_nat i :: 32 word) - 4) = i + 2 ^ 32 - 4"
      using that by (simp add: unat_sub_if_size unat_of_nat word_size)
    ultimately have "16 * length as \<le> unat (values + of_nat i - (values + 4))"
      using len by simp
    with place_values_frame [OF run] show ?thesis by blast
  qed
  have "object_bytes m' values 4 = object_bytes (store_le 4 m values rvalue) values 4"
    using keep by (simp add: object_bytes_def)
  then have "(load_le 4 m' values :: 32 word) = load_le 4 (store_le 4 m values rvalue) values"
    by (rule load_le_cong)
  also have "\<dots> = rvalue" by (rule load_store_same) simp_all
  finally show ?thesis .
qed

text \<open>
  When \<open>ffi_call\<close> (built without \<open>__EMSCRIPTEN__\<close>) reaches the host call for a CIF
  with at most 1000 arguments, the length it passes for the values buffer is 4 if
  the return is indirect and 0 otherwise, plus the sum of \<open>type_size\<close> over the argument
  types.  With an indirect return the first four bytes of the buffer hold \<open>rvalue\<close> and
  the result length passed is 0; otherwise the result length is \<open>type_size\<close> of the
  return type.
\<close>

lemma ffi_call_buffer:
  assumes run: "ffi_call h m cif fn rvalue avalue values = Inr (m', call)"
      and prepared: "unat (nargs cif) \<le> MAX_ARGS"
  shows "\<exists>indirect ss.
           return_indirect h (rtype cif) = Inr indirect
         \<and> list_all2 (\<lambda>a s. type_size h a = Inr s) (take (unat (nargs cif)) (arg_types cif)) ss
         \<and> unat (values_len call) = (if indirect then 4 else 0) + sum_list (map unat ss)
         \<and> values_ptr call = values \<and> fn_ptr call = fn \<and> results call = rvalue
         \<and> (indirect \<longrightarrow> load_le 4 m' values = rvalue \<and> results_len call = 0)
         \<and> (\<not> indirect \<longrightarrow> (\<exists>s. type_size h (rtype cif) = Inr s \<and> results_len call = ucast s))"
proof -
  let ?as = "take (unat (nargs cif)) (arg_types cif)"
  from run obtain indirect rsize tsz cur rlen where
        ind: "return_indirect h (rtype cif) = Inr indirect"
    and rs: "(if indirect then type_size h (rtype cif) else Inr 0) = Inr rsize"
    and av: "arg_vector cif = Inr ?as"
    and tot: "sum_type_sizes h ?as (ucast rsize) = Inr tsz"
    and pl: "place_values h (if indirect then store_le 4 m values rvalue else m) ?as avalue
               (if indirect then values + 4 else values) = Inr (m', cur)"
    and rl: "(if indirect then Inr 0 else type_size h (rtype cif)) = Inr rlen"
    and call: "call = \<lparr>fn_ptr = fn, values_ptr = values, values_len = tsz, results = rvalue,
                       results_len = ucast rlen\<rparr>"
    by (auto simp add: ffi_call_def arg_vector_def split: sum.splits if_splits)
  have len: "length ?as \<le> 1000" using prepared by (simp add: MAX_ARGS_def)
  from sum_type_sizes_total [OF tot] obtain ss where
        ss: "list_all2 (\<lambda>a s. type_size h a = Inr s) ?as ss"
    and tszeq: "tsz = ucast rsize + of_nat (sum_list (map unat ss))" by blast
  have bound: "sum_list (map unat ss) \<le> 16000" using sizes_bounded [OF ss] len by simp
  have rsize: "rsize = (if indirect then 4 else 0)"
  proof (cases indirect)
    case True
    with ind have "\<exists>t. h (rtype cif) = Some t \<and> type t = FFI_TYPE_STRUCT" "rtype cif \<noteq> 0"
      by (auto simp add: return_indirect_def split: if_splits option.splits ffi_kind.splits)
    with rs True show ?thesis by (auto simp add: type_size_def)
  next
    case False
    with rs show ?thesis by simp
  qed
  have "unat tsz = (if indirect then 4 else 0) + sum_list (map unat ss)"
    using bound by (simp add: tszeq rsize unat_word_ariths unat_of_nat)
  moreover have "indirect \<longrightarrow> load_le 4 m' values = rvalue \<and> results_len call = 0"
    using pl rl call hidden_pointer_kept [OF _ len] by auto
  moreover have "\<not> indirect \<longrightarrow> (\<exists>s. type_size h (rtype cif) = Inr s \<and> results_len call = ucast s)"
    using rl call by auto
  ultimately show ?thesis using ind ss call by auto
qed


lemma example_call_run:
  "\<exists>m' call. ffi_call example_heap (\<lambda>x. ucast x) (example_cif FFI_WASM32 [0x50, 0x30] 0x100)
       7 0x3000 [0x1000, 0x1004] 0x2000 = Inr (m', call)"
  by (simp add: ffi_call_def example_heap_def descriptor_def example_cif_def arg_vector_def
      return_indirect_def type_size_def place_value_def)

lemma example_call_buffer:
  "\<exists>m' call. ffi_call example_heap (\<lambda>x. ucast x) (example_cif FFI_WASM32 [0x50, 0x30] 0x100)
       7 0x3000 [0x1000, 0x1004] 0x2000 = Inr (m', call)
     \<and> unat (values_len call) = 16 \<and> load_le 4 m' 0x2000 = (0x3000 :: 32 word)
     \<and> results_len call = 0"
proof -
  let ?cif = "example_cif FFI_WASM32 [0x50, 0x30] 0x100"
  from example_call_run obtain m' call where
    run: "ffi_call example_heap (\<lambda>x. ucast x) ?cif 7 0x3000 [0x1000, 0x1004] 0x2000 = Inr (m', call)"
    by blast
  have n: "unat (nargs ?cif) \<le> MAX_ARGS" by (simp add: example_cif_def MAX_ARGS_def)
  from ffi_call_buffer [OF run n]
  have "unat (values_len call) = 16 \<and> load_le 4 m' 0x2000 = (0x3000 :: 32 word)
     \<and> results_len call = 0"
    by (auto simp add: example_cif_def example_heap_def descriptor_def return_indirect_def
        type_size_def list_all2_Cons1)
  with run show ?thesis by blast
qed

text \<open>
  C7 fails on the code for a prepared CIF that \<open>ffi_call\<close> cannot run.  For the return
  type \<open>struct L {long double}\<close>, \<open>ffi_prep_cif_machdep\<close> returns \<open>FFI_OK\<close> and leaves the
  descriptor with the tag LONGDOUBLE; \<open>ffi_call\<close> on the prepared CIF then aborts in
  \<open>return_indirect\<close>, whatever the memory, the function and the argument vector,
  before it has built a values buffer or reached the host call.
\<close>

theorem ffi_call_aborts_on_prepared_cif:
  "ffi_prep_cif_machdep False (Suc (Suc 0)) example_statics example_heap
      (example_cif FFI_WASM32 [] 0x120) =
     Inr (example_heap(0x120 \<mapsto> descriptor 16 16 FFI_TYPE_LONGDOUBLE [0x40]),
          example_cif FFI_WASM32 [] 0x120, FFI_OK)
   \<and> (\<forall>m fn rvalue avalue values.
         ffi_call (example_heap(0x120 \<mapsto> descriptor 16 16 FFI_TYPE_LONGDOUBLE [0x40])) m
           (example_cif FFI_WASM32 [] 0x120) fn rvalue avalue values = Inl Abort)"
  by (simp add: ffi_prep_cif_machdep_def arg_vector_def example_cif_def
      prep_cif_common_def MAX_ARGS_def VARARGS_FLAG_def example_heap_def descriptor_def
      example_statics_def return_indirect_def ffi_call_def)

subsection \<open>Canonical descriptors are fixed points of \<open>replace_type\<close>\<close>

lemma canonical_Suc_iff:
  "canonical (Suc n) h a \<longleftrightarrow>
     a = 0 \<or> (\<exists>t. h a = Some t \<and> type t \<noteq> FFI_TYPE_COMPLEX \<and>
       (type t = FFI_TYPE_STRUCT \<longrightarrow>
          size_bytes t \<noteq> 0 \<and> (\<forall>e\<in>set (elements t). canonical n h e) \<and>
          kept_struct h (elements t)))"
  by (auto split: option.splits)

lemma canonical_Suc: "canonical n h a \<Longrightarrow> canonical (Suc n) h a"
proof (induction n arbitrary: a)
  case 0
  then show ?case by simp
next
  case (Suc n)
  have A: "a = 0 \<or> (\<exists>t. h a = Some t \<and> type t \<noteq> FFI_TYPE_COMPLEX \<and>
       (type t = FFI_TYPE_STRUCT \<longrightarrow>
          size_bytes t \<noteq> 0 \<and> (\<forall>e\<in>set (elements t). canonical n h e) \<and>
          kept_struct h (elements t)))"
    using Suc.prems by (rule canonical_Suc_iff [THEN iffD1])
  show ?case by (rule canonical_Suc_iff [THEN iffD2]) (use A Suc.IH in blast)
qed

lemma canonical_add: "canonical n h a \<Longrightarrow> canonical (n + k) h a"
  by (induction k) (simp_all add: canonical_Suc del: canonical.simps)

lemma canonical_mono: "canonical n h a \<Longrightarrow> n \<le> m \<Longrightarrow> canonical m h a"
  using canonical_add [of n h a "m - n"] by simp

lemma nonvoid_elements_cong:
  "(\<And>e. e \<in> set es \<Longrightarrow> kind_of h' e = kind_of h e) \<Longrightarrow>
   nonvoid_elements h' es = nonvoid_elements h es"
  by (simp add: nonvoid_elements_def cong: filter_cong)

lemma kept_struct_cong:
  assumes "\<And>e. e \<in> set es \<Longrightarrow> kind_of h' e = kind_of h e"
  shows "kept_struct h' es = kept_struct h es"
proof -
  have nv: "nonvoid_elements h' es = nonvoid_elements h es"
    using assms by (rule nonvoid_elements_cong)
  have "set (nonvoid_elements h es) \<subseteq> set es" by (auto simp add: nonvoid_elements_def)
  then show ?thesis
    using assms by (auto simp add: kept_struct_def nv split: list.splits)
qed

lemma kind_of_same: "h' a = h a \<Longrightarrow> kind_of h' a = kind_of h a"
  by (simp add: kind_of_def)

text \<open>Canonical descriptors stay canonical when nothing canonical is changed.\<close>

lemma canonical_cases:
  assumes "canonical (Suc n) h a" and "a \<noteq> 0"
  obtains t where "h a = Some t" and "type t \<noteq> FFI_TYPE_COMPLEX"
    and "type t = FFI_TYPE_STRUCT \<Longrightarrow> size_bytes t \<noteq> 0"
    and "type t = FFI_TYPE_STRUCT \<Longrightarrow> \<forall>e\<in>set (elements t). canonical n h e"
    and "type t = FFI_TYPE_STRUCT \<Longrightarrow> kept_struct h (elements t)"
proof -
  from assms have "\<exists>t. h a = Some t \<and> type t \<noteq> FFI_TYPE_COMPLEX \<and>
       (type t = FFI_TYPE_STRUCT \<longrightarrow>
          size_bytes t \<noteq> 0 \<and> (\<forall>e\<in>set (elements t). canonical n h e) \<and>
          kept_struct h (elements t))"
    by (simp only: canonical_Suc_iff) simp
  then show thesis using that by blast
qed

lemma canonical_scalarI:
  "h a = Some t \<Longrightarrow> type t \<noteq> FFI_TYPE_COMPLEX \<Longrightarrow> type t \<noteq> FFI_TYPE_STRUCT \<Longrightarrow>
   canonical (Suc n) h a"
  by (simp only: canonical_Suc_iff) simp

lemma canonical_structI:
  "h a = Some t \<Longrightarrow> type t = FFI_TYPE_STRUCT \<Longrightarrow> size_bytes t \<noteq> 0 \<Longrightarrow>
   \<forall>e\<in>set (elements t). canonical n h e \<Longrightarrow> kept_struct h (elements t) \<Longrightarrow>
   canonical (Suc n) h a"
  by (simp only: canonical_Suc_iff) simp

lemma canonical_frame:
  assumes fr: "\<And>m b. canonical m h b \<Longrightarrow> h' b = h b"
  shows "canonical n h a \<Longrightarrow> canonical n h' a"
proof (induction n arbitrary: a)
  case 0
  then show ?case by simp
next
  case (Suc n)
  show ?case
  proof (cases "a = 0")
    case True
    then show ?thesis by simp
  next
    case False
    from Suc.prems False obtain t where t: "h a = Some t" and nc: "type t \<noteq> FFI_TYPE_COMPLEX"
      and sz: "type t = FFI_TYPE_STRUCT \<Longrightarrow> size_bytes t \<noteq> 0"
      and els: "type t = FFI_TYPE_STRUCT \<Longrightarrow> \<forall>e\<in>set (elements t). canonical n h e"
      and k: "type t = FFI_TYPE_STRUCT \<Longrightarrow> kept_struct h (elements t)"
      by (rule canonical_cases) blast
    have t': "h' a = Some t" using fr [OF Suc.prems] t by simp
    show ?thesis
    proof (cases "type t = FFI_TYPE_STRUCT")
      case True
      have "kind_of h' e = kind_of h e" if "e \<in> set (elements t)" for e
        using els [OF True] that by (intro kind_of_same fr [of n e]) blast
      then have "kept_struct h' (elements t) = kept_struct h (elements t)"
        by (rule kept_struct_cong)
      then have "kept_struct h' (elements t)" using k [OF True] by simp
      moreover have "\<forall>e\<in>set (elements t). canonical n h' e" using els [OF True] Suc.IH by blast
      ultimately show ?thesis using t' True sz by (intro canonical_structI [of h' a t]) simp_all
    next
      case False
      with t' nc show ?thesis by (intro canonical_scalarI [of h' a t])
    qed
  qed
qed

text \<open>The loop when every recursive call is a no-op.\<close>

lemma loop_noop:
  assumes "\<And>e. e \<in> set es \<Longrightarrow> rt h e = Inr (h, kind_of h e)"
  shows "replace_type_loop rt h es sc n =
           Inr (h, (if nonvoid_elements h es = [] then sc
                    else kind_of h (last (nonvoid_elements h es))),
                n + length (nonvoid_elements h es))"
  using assms
proof (induction es arbitrary: sc n)
  case Nil
  then show ?case by (simp add: nonvoid_elements_def)
next
  case (Cons e es)
  then show ?case by (simp add: nonvoid_elements_def)
qed

lemma kept_struct_cases:
  "kept_struct h es \<longleftrightarrow>
     2 \<le> length (nonvoid_elements h es) \<or>
     (length (nonvoid_elements h es) = 1 \<and> kind_of h (last (nonvoid_elements h es)) = FFI_TYPE_STRUCT)"
proof (cases "nonvoid_elements h es")
  case Nil
  then show ?thesis by (simp add: kept_struct_def)
next
  case (Cons e es')
  then show ?thesis by (cases es') (simp_all add: kept_struct_def)
qed

lemma replace_type_null: "replace_type (Suc n) G h 0 ir = Inr (h, FFI_TYPE_VOID)"
  by simp

lemma replace_type_struct:
  assumes "a \<noteq> 0" "h a = Some t" "type t = FFI_TYPE_STRUCT" "size_bytes t \<noteq> 0"
  shows "replace_type (Suc n) G h a ir =
     (case replace_type_loop (\<lambda>h' e. replace_type n G h' e False) h (elements t)
             FFI_TYPE_VOID 0 of
        Inl err \<Rightarrow> Inl err
      | Inr (h1, sc, cnt) \<Rightarrow>
          (case h1 a of
             None \<Rightarrow> Inl Undefined
           | Some t1 \<Rightarrow>
               if cnt > 1 then Inr (h1, type t1)
               else Inr (h1(a \<mapsto> t1\<lparr>type := sc\<rparr>), sc)))"
  using assms by simp

lemma replace_type_scalar:
  assumes "a \<noteq> 0" "h a = Some t" "type t \<noteq> FFI_TYPE_STRUCT" "type t \<noteq> FFI_TYPE_COMPLEX"
      and "\<not> (ir \<and> type t = FFI_TYPE_LONGDOUBLE)"
  shows "replace_type (Suc n) G h a ir = Inr (h, type t)"
  using assms by auto

lemma replace_type_undefined:
  "a \<noteq> 0 \<Longrightarrow> h a = None \<Longrightarrow> replace_type (Suc n) G h a ir = Inl Undefined"
  by simp

lemma replace_type_complex:
  assumes "a \<noteq> 0" "h a = Some t" "type t = FFI_TYPE_COMPLEX"
  shows "replace_type (Suc n) G h a ir =
     (case elements t of
        [] \<Rightarrow> Inl Undefined
      | c # _ \<Rightarrow>
          (case h c of
             None \<Rightarrow> Inl Undefined
           | Some complex_type \<Rightarrow>
               (case complex_struct_elements G (type complex_type) of
                  None \<Rightarrow> Inl Abort
                | Some es \<Rightarrow>
                    Inr (h(a \<mapsto> t\<lparr>elements := es, type := FFI_TYPE_STRUCT,
                                   size_bytes := size_bytes complex_type * 2,
                                   alignment := alignment complex_type\<rparr>),
                         FFI_TYPE_STRUCT))))"
  using assms by simp

lemma replace_type_longdouble:
  assumes "a \<noteq> 0" "h a = Some t" "type t = FFI_TYPE_LONGDOUBLE"
  shows "replace_type (Suc n) G h a True =
     (case h (ffi_type_sint64 G) of
        None \<Rightarrow> Inl Undefined
      | Some sint64 \<Rightarrow>
          Inr (h(a \<mapsto> t\<lparr>type := FFI_TYPE_STRUCT, size_bytes := size_bytes sint64 * 2,
                         alignment := 16,
                         elements := [ffi_type_sint64 G, ffi_type_sint64 G]\<rparr>),
               FFI_TYPE_STRUCT))"
  using assms by simp

lemma replace_type_zero:
  assumes "a \<noteq> 0" "h a = Some t" "type t = FFI_TYPE_STRUCT" "size_bytes t = 0"
  shows "replace_type (Suc n) G h a ir = Inr (h(a \<mapsto> t\<lparr>type := FFI_TYPE_VOID\<rparr>), FFI_TYPE_VOID)"
  using assms by simp

declare replace_type.simps [simp del]

text \<open>A canonical descriptor is a fixed point, with the fuel of its depth.\<close>

lemma canonical_fixed:
  "canonical n h a \<Longrightarrow> \<not> (ir \<and> kind_of h a = FFI_TYPE_LONGDOUBLE) \<Longrightarrow>
   replace_type n G h a ir = Inr (h, kind_of h a)"
proof (induction n arbitrary: a ir)
  case 0
  then show ?case by simp
next
  case (Suc n)
  show ?case
  proof (cases "a = 0")
    case True
    then show ?thesis by (simp add: kind_of_def replace_type_null)
  next
    case False
    from Suc.prems(1) False obtain t where t: "h a = Some t" and nc: "type t \<noteq> FFI_TYPE_COMPLEX"
      and sz': "type t = FFI_TYPE_STRUCT \<Longrightarrow> size_bytes t \<noteq> 0"
      and els': "type t = FFI_TYPE_STRUCT \<Longrightarrow> \<forall>e\<in>set (elements t). canonical n h e"
      and k': "type t = FFI_TYPE_STRUCT \<Longrightarrow> kept_struct h (elements t)"
      by (rule canonical_cases) blast
    have ka: "kind_of h a = type t" using False t by (simp add: kind_of_def)
    show ?thesis
    proof (cases "type t = FFI_TYPE_STRUCT")
      case True
      note els = els' [OF True] and k = k' [OF True] and sz = sz' [OF True]
      let ?nv = "nonvoid_elements h (elements t)"
      let ?sc = "if ?nv = [] then FFI_TYPE_VOID else kind_of h (last ?nv)"
      have "replace_type n G h e False = Inr (h, kind_of h e)" if "e \<in> set (elements t)" for e
        using Suc.IH [of e False] els that by simp
      then have loop: "replace_type_loop (\<lambda>h' e. replace_type n G h' e False) h (elements t)
           FFI_TYPE_VOID 0 = Inr (h, ?sc, 0 + length ?nv)"
        by (rule loop_noop)
      have unf: "replace_type (Suc n) G h a ir =
          (if length ?nv > 1 then Inr (h, type t) else Inr (h(a \<mapsto> t\<lparr>type := ?sc\<rparr>), ?sc))"
        by (simp only: replace_type_struct [of a h t n G ir, OF False t True sz] loop) (simp add: t)
      from k consider "2 \<le> length ?nv"
        | "length ?nv = 1" "kind_of h (last ?nv) = FFI_TYPE_STRUCT"
        unfolding kept_struct_cases by blast
      then show ?thesis
      proof cases
        case 1
        then show ?thesis by (simp add: unf ka)
      next
        case 2
        then have "?nv \<noteq> []" by (cases ?nv) simp_all
        with 2(2) have sc: "?sc = FFI_TYPE_STRUCT" by simp
        have upd: "h(a \<mapsto> t\<lparr>type := FFI_TYPE_STRUCT\<rparr>) = h"
          using t True by (auto simp add: fun_upd_idem)
        show ?thesis using 2(1) by (simp only: unf sc upd ka True) simp
      qed
    next
      case False
      have "replace_type (Suc n) G h a ir = Inr (h, type t)"
        using \<open>a \<noteq> 0\<close> t False nc Suc.prems(2) ka by (intro replace_type_scalar) auto
      then show ?thesis by (simp only: ka)
    qed
  qed
qed

lemma reshaped_refl: "reshaped h h"
  by (auto simp add: reshaped_def split: option.splits)

lemma reshaped_None: "reshaped h h' \<Longrightarrow> h b = None \<Longrightarrow> h' b = None"
  by (auto simp add: reshaped_def split: option.splits dest: spec [of _ b])

lemma reshaped_Some:
  assumes "reshaped h h'" and "h b = Some t"
  obtains t' where "h' b = Some t'"
    and "type t \<noteq> FFI_TYPE_COMPLEX \<Longrightarrow> type t' \<noteq> FFI_TYPE_COMPLEX"
    and "type t \<noteq> FFI_TYPE_COMPLEX \<Longrightarrow> t' = t\<lparr>type := type t'\<rparr>"
    and "type t = FFI_TYPE_COMPLEX \<Longrightarrow> t' = t \<or> type t' \<noteq> FFI_TYPE_COMPLEX"
proof -
  from assms(1) have "case h b of None \<Rightarrow> h' b = None
      | Some t \<Rightarrow> (\<exists>t'. h' b = Some t' \<and>
             (if type t = FFI_TYPE_COMPLEX then t' = t \<or> type t' \<noteq> FFI_TYPE_COMPLEX
              else type t' \<noteq> FFI_TYPE_COMPLEX \<and> t' = t\<lparr>type := type t'\<rparr>))"
    unfolding reshaped_def by (rule spec)
  with assms(2) obtain t' where "h' b = Some t'"
     "if type t = FFI_TYPE_COMPLEX then t' = t \<or> type t' \<noteq> FFI_TYPE_COMPLEX
              else type t' \<noteq> FFI_TYPE_COMPLEX \<and> t' = t\<lparr>type := type t'\<rparr>"
    by auto
  then show thesis using that by (cases "type t = FFI_TYPE_COMPLEX") simp_all
qed

lemma reshaped_trans:
  assumes "reshaped h h1" and "reshaped h1 h2"
  shows "reshaped h h2"
  unfolding reshaped_def
proof
  fix b
  show "case h b of None \<Rightarrow> h2 b = None
      | Some t \<Rightarrow> (\<exists>t'. h2 b = Some t' \<and>
             (if type t = FFI_TYPE_COMPLEX then t' = t \<or> type t' \<noteq> FFI_TYPE_COMPLEX
              else type t' \<noteq> FFI_TYPE_COMPLEX \<and> t' = t\<lparr>type := type t'\<rparr>))"
  proof (cases "h b")
    case None
    then show ?thesis using assms by (simp add: reshaped_None)
  next
    case (Some t)
    from reshaped_Some [OF assms(1) Some] obtain t1 where t1: "h1 b = Some t1"
      and a1: "type t \<noteq> FFI_TYPE_COMPLEX \<Longrightarrow> type t1 \<noteq> FFI_TYPE_COMPLEX"
      and b1: "type t \<noteq> FFI_TYPE_COMPLEX \<Longrightarrow> t1 = t\<lparr>type := type t1\<rparr>"
      and c1: "type t = FFI_TYPE_COMPLEX \<Longrightarrow> t1 = t \<or> type t1 \<noteq> FFI_TYPE_COMPLEX" by blast
    from reshaped_Some [OF assms(2) t1] obtain t2 where t2: "h2 b = Some t2"
      and a2: "type t1 \<noteq> FFI_TYPE_COMPLEX \<Longrightarrow> type t2 \<noteq> FFI_TYPE_COMPLEX"
      and b2: "type t1 \<noteq> FFI_TYPE_COMPLEX \<Longrightarrow> t2 = t1\<lparr>type := type t2\<rparr>"
      and c2: "type t1 = FFI_TYPE_COMPLEX \<Longrightarrow> t2 = t1 \<or> type t2 \<noteq> FFI_TYPE_COMPLEX" by blast
    show ?thesis
    proof (cases "type t = FFI_TYPE_COMPLEX")
      case True
      have "t2 = t \<or> type t2 \<noteq> FFI_TYPE_COMPLEX"
      proof (cases "t1 = t")
        case True
        with c2 \<open>type t = FFI_TYPE_COMPLEX\<close> show ?thesis by simp
      next
        case False
        with c1 True have "type t1 \<noteq> FFI_TYPE_COMPLEX" by simp
        with a2 show ?thesis by simp
      qed
      then show ?thesis using Some t2 True by simp
    next
      case False
      have e1: "t1 = t\<lparr>type := type t1\<rparr>" by (rule b1 [OF False])
      have e2: "t2 = t1\<lparr>type := type t2\<rparr>" by (rule b2 [OF a1 [OF False]])
      have "t2 = (t\<lparr>type := type t1\<rparr>)\<lparr>type := type t2\<rparr>"
        by (subst e1 [symmetric]) (rule e2)
      then have e3: "t2 = t\<lparr>type := type t2\<rparr>" by simp
      have "type t2 \<noteq> FFI_TYPE_COMPLEX" by (rule a2 [OF a1 [OF False]])
      then show ?thesis using Some t2 False e3 by simp
    qed
  qed
qed


lemma reshaped_upd:
  assumes "h a = Some t" and "type t' \<noteq> FFI_TYPE_COMPLEX"
      and "type t \<noteq> FFI_TYPE_COMPLEX \<Longrightarrow> t' = t\<lparr>type := type t'\<rparr>"
  shows "reshaped h (h(a \<mapsto> t'))"
  using assms by (auto simp add: reshaped_def split: option.splits)

lemma replace_type_Inr_cases [consumes 1, case_names null complex longdouble zero struct scalar]:
  assumes "replace_type (Suc n) G h a ir = Inr (h', k)"
  obtains
    (null) "a = 0" "h' = h" "k = FFI_TYPE_VOID"
  | (complex) t c cs ct es where "a \<noteq> 0" "h a = Some t" "type t = FFI_TYPE_COMPLEX"
      "elements t = c # cs" "h c = Some ct"
      "complex_struct_elements G (type ct) = Some es"
      "h' = h(a \<mapsto> t\<lparr>elements := es, type := FFI_TYPE_STRUCT,
                         size_bytes := size_bytes ct * 2, alignment := alignment ct\<rparr>)"
      "k = FFI_TYPE_STRUCT"
  | (longdouble) t s where "a \<noteq> 0" "h a = Some t" "type t = FFI_TYPE_LONGDOUBLE" "ir"
      "h (ffi_type_sint64 G) = Some s"
      "h' = h(a \<mapsto> t\<lparr>type := FFI_TYPE_STRUCT, size_bytes := size_bytes s * 2, alignment := 16,
                         elements := [ffi_type_sint64 G, ffi_type_sint64 G]\<rparr>)"
      "k = FFI_TYPE_STRUCT"
  | (zero) t where "a \<noteq> 0" "h a = Some t" "type t = FFI_TYPE_STRUCT" "size_bytes t = 0"
      "h' = h(a \<mapsto> t\<lparr>type := FFI_TYPE_VOID\<rparr>)" "k = FFI_TYPE_VOID"
  | (struct) t h1 sc cnt t1 where "a \<noteq> 0" "h a = Some t" "type t = FFI_TYPE_STRUCT"
      "size_bytes t \<noteq> 0"
      "replace_type_loop (\<lambda>h' e. replace_type n G h' e False) h (elements t) FFI_TYPE_VOID 0 =
         Inr (h1, sc, cnt)"
      "h1 a = Some t1"
      "cnt > 1 \<Longrightarrow> h' = h1 \<and> k = type t1"
      "\<not> cnt > 1 \<Longrightarrow> h' = h1(a \<mapsto> t1\<lparr>type := sc\<rparr>) \<and> k = sc"
  | (scalar) t where "a \<noteq> 0" "h a = Some t" "type t \<noteq> FFI_TYPE_COMPLEX"
      "type t \<noteq> FFI_TYPE_STRUCT" "\<not> (ir \<and> type t = FFI_TYPE_LONGDOUBLE)" "h' = h" "k = type t"
proof (cases "a = 0")
  case True
  with assms have "h' = h" "k = FFI_TYPE_VOID" by (simp_all add: replace_type_null)
  with True show thesis by (rule null)
next
  case False
  have "h a \<noteq> None" using assms replace_type_undefined [OF False, of h n G ir] by auto
  then obtain t where t: "h a = Some t" by blast
  consider "type t = FFI_TYPE_COMPLEX"
    | "type t \<noteq> FFI_TYPE_COMPLEX" "ir" "type t = FFI_TYPE_LONGDOUBLE"
    | "type t = FFI_TYPE_STRUCT" "size_bytes t = 0"
    | "type t = FFI_TYPE_STRUCT" "size_bytes t \<noteq> 0"
    | "type t \<noteq> FFI_TYPE_COMPLEX" "type t \<noteq> FFI_TYPE_STRUCT" "\<not> (ir \<and> type t = FFI_TYPE_LONGDOUBLE)"
    by auto
  then show thesis
  proof cases
    case 1
    from assms have E: "(case elements t of
        [] \<Rightarrow> Inl Undefined
      | c # _ \<Rightarrow>
          (case h c of
             None \<Rightarrow> Inl Undefined
           | Some complex_type \<Rightarrow>
               (case complex_struct_elements G (type complex_type) of
                  None \<Rightarrow> Inl Abort
                | Some es \<Rightarrow>
                    Inr (h(a \<mapsto> t\<lparr>elements := es, type := FFI_TYPE_STRUCT,
                                   size_bytes := size_bytes complex_type * 2,
                                   alignment := alignment complex_type\<rparr>),
                         FFI_TYPE_STRUCT)))) = Inr (h', k)"
      by (simp only: replace_type_complex [of a h t n G ir, OF False t 1])
    then obtain c cs where c: "elements t = c # cs" by (cases "elements t") simp_all
    with E obtain ct where ct: "h c = Some ct" by (cases "h c") simp_all
    with E c obtain es where es: "complex_struct_elements G (type ct) = Some es"
      by (cases "complex_struct_elements G (type ct)") simp_all
    show ?thesis
      by (rule complex [OF False t 1 c ct es]) (use E c ct es in simp_all)
  next
    case 2
    from assms 2 have E: "(case h (ffi_type_sint64 G) of
        None \<Rightarrow> Inl Undefined
      | Some sint64 \<Rightarrow>
          Inr (h(a \<mapsto> t\<lparr>type := FFI_TYPE_STRUCT, size_bytes := size_bytes sint64 * 2,
                         alignment := 16,
                         elements := [ffi_type_sint64 G, ffi_type_sint64 G]\<rparr>),
               FFI_TYPE_STRUCT)) = Inr (h', k)"
      by (simp only: replace_type_longdouble [of a h t n G, OF False t 2(3)])
    then obtain s where s: "h (ffi_type_sint64 G) = Some s"
      by (cases "h (ffi_type_sint64 G)") simp_all
    show ?thesis
      by (rule longdouble [OF False t 2(3) 2(2) s]) (use E s in simp_all)
  next
    case 3
    from assms have "h' = h(a \<mapsto> t\<lparr>type := FFI_TYPE_VOID\<rparr>)" "k = FFI_TYPE_VOID"
      by (simp_all add: replace_type_zero [of a h t n G ir, OF False t 3])
    then show ?thesis by (rule zero [OF False t 3])
  next
    case 4
    let ?L = "replace_type_loop (\<lambda>h' e. replace_type n G h' e False) h (elements t)
             FFI_TYPE_VOID 0"
    from assms have E: "(case ?L of
        Inl err \<Rightarrow> Inl err
      | Inr (h1, sc, cnt) \<Rightarrow>
          (case h1 a of
             None \<Rightarrow> Inl Undefined
           | Some t1 \<Rightarrow>
               if cnt > 1 then Inr (h1, type t1)
               else Inr (h1(a \<mapsto> t1\<lparr>type := sc\<rparr>), sc))) = Inr (h', k)"
      by (simp only: replace_type_struct [of a h t n G ir, OF False t 4])
    then obtain r where "?L = Inr r" by (cases ?L) simp_all
    then obtain h1 sc cnt where L: "?L = Inr (h1, sc, cnt)" by (cases r) simp
    with E have E2: "(case h1 a of
             None \<Rightarrow> Inl Undefined
           | Some t1 \<Rightarrow>
               if cnt > 1 then Inr (h1, type t1)
               else Inr (h1(a \<mapsto> t1\<lparr>type := sc\<rparr>), sc)) = Inr (h', k)" by simp
    then obtain t1 where t1: "h1 a = Some t1" by (cases "h1 a") simp_all
    with E2 have E3: "(if cnt > 1 then Inr (h1, type t1)
               else Inr (h1(a \<mapsto> t1\<lparr>type := sc\<rparr>), sc)) = Inr (h', k)"
      by (auto split: if_splits)
    show ?thesis
      by (rule struct [OF False t 4(1) 4(2) L t1]) (use E3 in \<open>auto split: if_splits\<close>)
  next
    case 5
    from assms have "h' = h" "k = type t"
      by (simp_all add: replace_type_scalar [of a h t ir n G, OF False t 5(2) 5(1) 5(3)])
    then show ?thesis by (rule scalar [OF False t 5])
  qed
qed

lemma replace_type_loop_Cons:
  assumes "replace_type_loop rt h (e # es) sc n = Inr r"
  obtains h2 k where "rt h e = Inr (h2, k)"
    and "replace_type_loop rt h2 es (if k \<noteq> FFI_TYPE_VOID then k else sc)
           (if k \<noteq> FFI_TYPE_VOID then n + 1 else n) = Inr r"
  using assms by (auto split: sum.splits if_splits)

lemma loop_reshaped:
  assumes rt: "\<And>h e h' k. rt h e = Inr (h', k) \<Longrightarrow> reshaped h h' \<and> k \<noteq> FFI_TYPE_COMPLEX"
  shows "replace_type_loop rt h es sc n = Inr (h1, sc1, n1) \<Longrightarrow> sc \<noteq> FFI_TYPE_COMPLEX \<Longrightarrow>
         reshaped h h1 \<and> sc1 \<noteq> FFI_TYPE_COMPLEX"
proof (induction es arbitrary: h sc n)
  case Nil
  then show ?case by (simp add: reshaped_refl)
next
  case (Cons e es)
  from Cons.prems(1) obtain h2 k where first: "rt h e = Inr (h2, k)"
    and rest: "replace_type_loop rt h2 es (if k \<noteq> FFI_TYPE_VOID then k else sc)
           (if k \<noteq> FFI_TYPE_VOID then n + 1 else n) = Inr (h1, sc1, n1)"
    by (rule replace_type_loop_Cons)
  from rt [OF first] have r1: "reshaped h h2" and k: "k \<noteq> FFI_TYPE_COMPLEX" by simp_all
  have "(if k \<noteq> FFI_TYPE_VOID then k else sc) \<noteq> FFI_TYPE_COMPLEX" using k Cons.prems(2) by simp
  from Cons.IH [OF rest this] have "reshaped h2 h1" "sc1 \<noteq> FFI_TYPE_COMPLEX" by simp_all
  with r1 show ?case by (blast intro: reshaped_trans)
qed

lemma complex_struct_elements_Some:
  "complex_struct_elements G k = Some es \<Longrightarrow>
   k \<in> {FFI_TYPE_FLOAT, FFI_TYPE_DOUBLE, FFI_TYPE_LONGDOUBLE} \<and>
   (\<exists>x \<in> {ffi_type_float G, ffi_type_double G, ffi_type_longdouble G}. es = [x, x])"
  by (auto simp add: complex_struct_elements_def split: if_splits)

lemma replace_type_reshaped:
  "replace_type n G h a False = Inr (h', k) \<Longrightarrow> reshaped h h' \<and> k \<noteq> FFI_TYPE_COMPLEX"
proof (induction n arbitrary: h a h' k)
  case 0
  then show ?case by (simp add: replace_type.simps)
next
  case (Suc n)
  from Suc.prems show ?case
  proof (cases rule: replace_type_Inr_cases)
    case null
    then show ?thesis by (simp add: reshaped_refl)
  next
    case (complex t c cs ct es)
    have "reshaped h (h(a \<mapsto> t\<lparr>elements := es, type := FFI_TYPE_STRUCT,
                         size_bytes := size_bytes ct * 2, alignment := alignment ct\<rparr>))"
      by (rule reshaped_upd [where h = h and a = a, OF complex(2)]) (use complex(3) in simp_all)
    then show ?thesis by (simp only: complex(7,8)) simp
  next
    case (longdouble t s)
    then show ?thesis by simp
  next
    case (zero t)
    have "reshaped h (h(a \<mapsto> t\<lparr>type := FFI_TYPE_VOID\<rparr>))"
      by (rule reshaped_upd [where h = h and a = a, OF zero(2)]) simp_all
    then show ?thesis by (simp only: zero(5,6)) simp
  next
    case (struct t h1 sc cnt t1)
    have "reshaped h h1 \<and> sc \<noteq> FFI_TYPE_COMPLEX"
      using struct(5) by (rule loop_reshaped [rotated 1]) (use Suc.IH in auto)
    then have r: "reshaped h h1" and sc: "sc \<noteq> FFI_TYPE_COMPLEX" by simp_all
    from reshaped_Some [OF r struct(2)] struct(6,3) have t1: "type t1 \<noteq> FFI_TYPE_COMPLEX"
      by auto
    show ?thesis
    proof (cases "cnt > 1")
      case True
      with struct(7) r t1 show ?thesis by simp
    next
      case False
      with struct(8) have e: "h' = h1(a \<mapsto> t1\<lparr>type := sc\<rparr>)" "k = sc" by simp_all
      have "reshaped h1 (h1(a \<mapsto> t1\<lparr>type := sc\<rparr>))"
        by (rule reshaped_upd [where h = h1 and a = a, OF struct(6)]) (use sc in simp_all)
      with r e sc show ?thesis by (blast intro: reshaped_trans)
    qed
  next
    case (scalar t)
    then show ?thesis by (simp add: reshaped_refl)
  qed
qed

lemma ranked_elements: "ranked r G h \<Longrightarrow> h a = Some t \<Longrightarrow> e \<in> set (elements t) \<Longrightarrow> r e < r a"
  unfolding ranked_def by blast

lemma ranked_complex:
  "ranked r G h \<Longrightarrow> h a = Some t \<Longrightarrow> type t = FFI_TYPE_COMPLEX \<Longrightarrow>
   r (ffi_type_float G) < r a \<and> r (ffi_type_double G) < r a \<and>
   r (ffi_type_longdouble G) < r a \<and> r (ffi_type_sint64 G) < r a"
  unfolding ranked_def by blast

lemma ranked_sint64:
  "ranked r G h \<Longrightarrow> h a = Some t \<Longrightarrow> type t = FFI_TYPE_LONGDOUBLE \<or> type t = FFI_TYPE_STRUCT \<Longrightarrow>
   r (ffi_type_sint64 G) < r a"
  unfolding ranked_def by blast

lemma ranked_upd:
  assumes "ranked r G h" and "\<forall>e\<in>set (elements t'). r e < r a" and "type t' \<noteq> FFI_TYPE_COMPLEX"
      and "type t' = FFI_TYPE_LONGDOUBLE \<or> type t' = FFI_TYPE_STRUCT \<Longrightarrow> r (ffi_type_sint64 G) < r a"
  shows "ranked r G (h(a \<mapsto> t'))"
  unfolding ranked_def
proof (intro allI impI)
  fix b t assume b: "(h(a \<mapsto> t')) b = Some t"
  show "(\<forall>e\<in>set (elements t). r e < r b) \<and>
        (type t = FFI_TYPE_COMPLEX \<longrightarrow>
           r (ffi_type_float G) < r b \<and> r (ffi_type_double G) < r b \<and>
           r (ffi_type_longdouble G) < r b \<and> r (ffi_type_sint64 G) < r b) \<and>
        (type t = FFI_TYPE_LONGDOUBLE \<or> type t = FFI_TYPE_STRUCT \<longrightarrow>
           r (ffi_type_sint64 G) < r b)"
  proof (cases "b = a")
    case True
    with b have "t = t'" by simp
    with assms True show ?thesis by blast
  next
    case False
    with b have "h b = Some t" by simp
    with assms(1) show ?thesis unfolding ranked_def by blast
  qed
qed

lemma loop_ranked:
  assumes rt: "\<And>h e h' k. ranked r G h \<Longrightarrow> rt h e = Inr (h', k) \<Longrightarrow>
                 ranked r G h' \<and> (\<forall>b. r e < r b \<longrightarrow> h' b = h b)"
  shows "replace_type_loop rt h es sc n = Inr (h1, sc1, n1) \<Longrightarrow> ranked r G h \<Longrightarrow>
         \<forall>e\<in>set es. r e < R \<Longrightarrow>
         ranked r G h1 \<and> (\<forall>b. R \<le> r b \<longrightarrow> h1 b = h b)"
proof (induction es arbitrary: h sc n)
  case Nil
  then show ?case by simp
next
  case (Cons e es)
  from Cons.prems(1) obtain h2 k where first: "rt h e = Inr (h2, k)"
    and rest: "replace_type_loop rt h2 es (if k \<noteq> FFI_TYPE_VOID then k else sc)
           (if k \<noteq> FFI_TYPE_VOID then n + 1 else n) = Inr (h1, sc1, n1)"
    by (rule replace_type_loop_Cons)
  from rt [OF Cons.prems(2) first] have r2: "ranked r G h2"
    and f2: "\<forall>b. r e < r b \<longrightarrow> h2 b = h b" by simp_all
  from Cons.prems(3) have e: "r e < R" and es: "\<forall>e\<in>set es. r e < R" by simp_all
  from Cons.IH [OF rest r2 es] have r1: "ranked r G h1"
    and f1: "\<forall>b. R \<le> r b \<longrightarrow> h1 b = h2 b" by simp_all
  have "h1 b = h b" if "R \<le> r b" for b
  proof -
    from that e have "r e < r b" by simp
    with f2 f1 that show ?thesis by simp
  qed
  with r1 show ?case by blast
qed

lemma replace_type_ranked:
  "ranked r G h \<Longrightarrow> replace_type n G h a ir = Inr (h', k) \<Longrightarrow>
   ranked r G h' \<and> (\<forall>b. r a < r b \<longrightarrow> h' b = h b)"
proof (induction n arbitrary: h a ir h' k)
  case 0
  then show ?case by (simp add: replace_type.simps)
next
  case (Suc n)
  note rk = Suc.prems(1)
  from Suc.prems(2) show ?case
  proof (cases rule: replace_type_Inr_cases)
    case null
    with rk show ?thesis by simp
  next
    case (complex t c cs ct es)
    from complex_struct_elements_Some [OF complex(6)]
    obtain x where x: "x \<in> {ffi_type_float G, ffi_type_double G, ffi_type_longdouble G}"
      and es: "es = [x, x]" by blast
    from ranked_complex [OF rk complex(2,3)] x have rx: "r x < r a" by auto
    have "ranked r G (h(a \<mapsto> t\<lparr>elements := es, type := FFI_TYPE_STRUCT,
                         size_bytes := size_bytes ct * 2, alignment := alignment ct\<rparr>))"
      by (rule ranked_upd [OF rk]) (use rx es ranked_complex [OF rk complex(2,3)] in simp_all)
    then have A: "ranked r G h'" by (simp only: complex(7))
    have B: "\<forall>b. r a < r b \<longrightarrow> h' b = h b" by (simp add: complex(7))
    from A B show ?thesis by blast
  next
    case (longdouble t s)
    from ranked_sint64 [OF rk longdouble(2)] longdouble(3) have rs: "r (ffi_type_sint64 G) < r a"
      by simp
    have "ranked r G (h(a \<mapsto> t\<lparr>type := FFI_TYPE_STRUCT, size_bytes := size_bytes s * 2,
              alignment := 16, elements := [ffi_type_sint64 G, ffi_type_sint64 G]\<rparr>))"
      by (rule ranked_upd [OF rk]) (use rs in simp_all)
    then have A: "ranked r G h'" by (simp only: longdouble(6))
    have B: "\<forall>b. r a < r b \<longrightarrow> h' b = h b" by (simp add: longdouble(6))
    from A B show ?thesis by blast
  next
    case (zero t)
    have "ranked r G (h(a \<mapsto> t\<lparr>type := FFI_TYPE_VOID\<rparr>))"
      by (rule ranked_upd [OF rk]) (use ranked_elements [OF rk zero(2)] in simp_all)
    then have A: "ranked r G h'" by (simp only: zero(5))
    have B: "\<forall>b. r a < r b \<longrightarrow> h' b = h b" by (simp add: zero(5))
    from A B show ?thesis by blast
  next
    case (struct t h1 sc cnt t1)
    have els: "\<forall>e\<in>set (elements t). r e < r a" using ranked_elements [OF rk struct(2)] by blast
    have "ranked r G h1 \<and> (\<forall>b. r a \<le> r b \<longrightarrow> h1 b = h b)"
      using struct(5) rk els by (rule loop_ranked [rotated 1]) (use Suc.IH in blast)
    then have r1: "ranked r G h1" and f1: "\<forall>b. r a \<le> r b \<longrightarrow> h1 b = h b" by simp_all
    from f1 struct(2,6) have t1: "t1 = t" by simp
    show ?thesis
    proof (cases "cnt > 1")
      case True
      with struct(7) r1 f1 show ?thesis by simp
    next
      case False
      with struct(8) have e: "h' = h1(a \<mapsto> t1\<lparr>type := sc\<rparr>)" by simp
      have sc: "sc \<noteq> FFI_TYPE_COMPLEX"
        using loop_reshaped [OF _ struct(5)] replace_type_reshaped by blast
      have "r (ffi_type_sint64 G) < r a"
        using ranked_sint64 [OF r1 struct(6)] t1 struct(3) by simp
      then have "ranked r G (h1(a \<mapsto> t1\<lparr>type := sc\<rparr>))"
        by (intro ranked_upd [OF r1]) (use sc els t1 in simp_all)
      then have A: "ranked r G h'" by (simp only: e)
      have B: "\<forall>b. r a < r b \<longrightarrow> h' b = h b" using f1 by (simp add: e)
      from A B show ?thesis by blast
    qed
  next
    case (scalar t)
    with rk show ?thesis by simp
  qed
qed

lemma kind_of_Some: "a \<noteq> 0 \<Longrightarrow> h a = Some t \<Longrightarrow> kind_of h a = type t"
  by (simp add: kind_of_def)

lemma kind_of_nonvoid:
  "kind_of h a \<noteq> FFI_TYPE_VOID \<Longrightarrow> a \<noteq> 0 \<and> (\<exists>t. h a = Some t \<and> type t = kind_of h a)"
  by (auto simp add: kind_of_def split: if_splits option.splits)

lemma retagged:
  "t' = t\<lparr>type := k\<rparr> \<Longrightarrow>
   size_bytes t' = size_bytes t \<and> alignment t' = alignment t \<and> elements t' = elements t"
  by simp

lemma statics_sint64:
  assumes "statics_ok G h"
  obtains s where "ffi_type_sint64 G \<noteq> 0" "h (ffi_type_sint64 G) = Some s"
    "type s = FFI_TYPE_SINT64" "size_bytes s = 8"
  using assms by (auto simp add: statics_ok_def split: option.splits)

lemma statics_canonical:
  assumes ok: "statics_ok G h"
      and x: "x \<in> {ffi_type_float G, ffi_type_double G, ffi_type_longdouble G, ffi_type_sint64 G}"
  shows "canonical 2 h x \<and> kind_of h x \<noteq> FFI_TYPE_VOID"
proof -
  from ok obtain s where s0: "ffi_type_sint64 G \<noteq> 0" and s: "h (ffi_type_sint64 G) = Some s"
    and st: "type s = FFI_TYPE_SINT64" by (rule statics_sint64)
  have ks: "kind_of h (ffi_type_sint64 G) = FFI_TYPE_SINT64" using s0 s st by (simp add: kind_of_Some)
  have cs: "canonical 1 h (ffi_type_sint64 G)"
    unfolding One_nat_def using s st by (intro canonical_scalarI [where t = s]) simp_all
  consider "x = ffi_type_float G" | "x = ffi_type_double G" | "x = ffi_type_sint64 G"
    | "x = ffi_type_longdouble G" using x by blast
  then show ?thesis
  proof cases
    case 1
    from ok have k: "kind_of h x = FFI_TYPE_FLOAT" by (simp add: statics_ok_def 1)
    then obtain t where "x \<noteq> 0" "h x = Some t" "type t = FFI_TYPE_FLOAT"
      using kind_of_nonvoid [of h x] by auto
    then have "canonical (Suc (Suc 0)) h x" by (intro canonical_scalarI [where t = t]) simp_all
    with k show ?thesis by (simp add: numeral_2_eq_2)
  next
    case 2
    from ok have k: "kind_of h x = FFI_TYPE_DOUBLE" by (simp add: statics_ok_def 2)
    then obtain t where "x \<noteq> 0" "h x = Some t" "type t = FFI_TYPE_DOUBLE"
      using kind_of_nonvoid [of h x] by auto
    then have "canonical (Suc (Suc 0)) h x" by (intro canonical_scalarI [where t = t]) simp_all
    with k show ?thesis by (simp add: numeral_2_eq_2)
  next
    case 3
    with cs ks show ?thesis using canonical_mono [of 1 h x 2] by simp
  next
    case 4
    from ok obtain t where l0: "x \<noteq> 0" and t: "h x = Some t"
      and d: "type t = FFI_TYPE_LONGDOUBLE \<or>
           (type t = FFI_TYPE_STRUCT \<and> size_bytes t \<noteq> 0 \<and>
            elements t = [ffi_type_sint64 G, ffi_type_sint64 G])"
      by (auto simp add: statics_ok_def 4 split: option.splits)
    from d show ?thesis
    proof
      assume ld: "type t = FFI_TYPE_LONGDOUBLE"
      then have "canonical (Suc (Suc 0)) h x" using t by (intro canonical_scalarI [where t = t]) simp_all
      with ld l0 t show ?thesis by (simp add: numeral_2_eq_2 kind_of_Some)
    next
      assume st: "type t = FFI_TYPE_STRUCT \<and> size_bytes t \<noteq> 0 \<and>
            elements t = [ffi_type_sint64 G, ffi_type_sint64 G]"
      have "kept_struct h (elements t)" using st ks by (simp add: kept_struct_def nonvoid_elements_def)
      then have "canonical (Suc (Suc 0)) h x"
        using t st cs by (intro canonical_structI [where t = t]) simp_all
      with st l0 t show ?thesis by (simp add: numeral_2_eq_2 kind_of_Some)
    qed
  qed
qed

lemma statics_ok_frame:
  assumes ok: "statics_ok G h" and fr: "\<And>m b. canonical m h b \<Longrightarrow> h' b = h b"
  shows "statics_ok G h'"
proof -
  have "h' x = h x" if "x \<in> {ffi_type_float G, ffi_type_double G, ffi_type_longdouble G, ffi_type_sint64 G}" for x
    using statics_canonical [OF ok that] fr by blast
  then have e: "h' (ffi_type_float G) = h (ffi_type_float G)"
    "h' (ffi_type_double G) = h (ffi_type_double G)"
    "h' (ffi_type_longdouble G) = h (ffi_type_longdouble G)"
    "h' (ffi_type_sint64 G) = h (ffi_type_sint64 G)"
    by simp_all
  have k: "kind_of h' (ffi_type_float G) = kind_of h (ffi_type_float G)"
    "kind_of h' (ffi_type_double G) = kind_of h (ffi_type_double G)"
    by (rule kind_of_same, rule e)+
  from ok show ?thesis unfolding statics_ok_def by (simp add: k e)
qed

lemma complex_okD:
  assumes "complex_ok h" and "h a = Some t" and "type t = FFI_TYPE_COMPLEX"
      and "elements t = c # cs" and "h c = Some ct"
  shows "type ct \<noteq> FFI_TYPE_COMPLEX \<and> size_bytes ct * 2 \<noteq> 0"
proof -
  from assms(1) [unfolded complex_ok_def, rule_format, OF assms(2,3)]
  show ?thesis using assms(4,5) by simp
qed

lemma complex_ok_reshaped:
  assumes ok: "complex_ok h" and rs: "reshaped h h'"
  shows "complex_ok h'"
  unfolding complex_ok_def
proof (intro allI impI)
  fix a t' assume a: "h' a = Some t'" and c: "type t' = FFI_TYPE_COMPLEX"
  have "h a \<noteq> None" using reshaped_None [OF rs, of a] a by auto
  then obtain t where t: "h a = Some t" by blast
  from reshaped_Some [OF rs t] a c have tt: "t' = t" "type t = FFI_TYPE_COMPLEX"
    by (metis option.inject)+
  show "case elements t' of [] \<Rightarrow> True
        | c # _ \<Rightarrow> (case h' c of None \<Rightarrow> True
             | Some ct \<Rightarrow> type ct \<noteq> FFI_TYPE_COMPLEX \<and> size_bytes ct * 2 \<noteq> 0)"
  proof (cases "elements t'")
    case Nil
    then show ?thesis by simp
  next
    case (Cons e es)
    show ?thesis
    proof (cases "h' e")
      case None
      with Cons show ?thesis by simp
    next
      case (Some ct')
      have "h e \<noteq> None" using reshaped_None [OF rs, of e] Some by auto
      then obtain ct where ct: "h e = Some ct" by blast
      from Cons tt have "elements t = e # es" by simp
      from complex_okD [OF ok t tt(2) this ct]
      have g: "type ct \<noteq> FFI_TYPE_COMPLEX" "size_bytes ct * 2 \<noteq> 0" by simp_all
      from reshaped_Some [OF rs ct] Some g(1) have "type ct' \<noteq> FFI_TYPE_COMPLEX"
        "ct' = ct\<lparr>type := type ct'\<rparr>" by (metis option.inject)+
      then have "type ct' \<noteq> FFI_TYPE_COMPLEX" "size_bytes ct' = size_bytes ct"
        using retagged [where t' = ct' and t = ct and k = "type ct'"] by simp_all
      with g Cons Some show ?thesis by simp
    qed
  qed
qed

lemma nonvoid_elements_Cons:
  "nonvoid_elements h (e # es) =
     (if kind_of h e \<noteq> FFI_TYPE_VOID then e # nonvoid_elements h es else nonvoid_elements h es)"
  by (simp add: nonvoid_elements_def)

lemma well_formed_step:
  assumes wf: "well_formed r G h" and run: "replace_type n G h a False = Inr (h', k)"
      and fr: "\<And>m b. canonical m h b \<Longrightarrow> h' b = h b"
  shows "well_formed r G h'"
proof -
  from wf have s: "statics_ok G h" and rk: "ranked r G h" and c: "complex_ok h"
    by (simp_all add: well_formed_def)
  from replace_type_ranked [OF rk run] have "ranked r G h'" by simp
  moreover from statics_ok_frame [OF s fr] have "statics_ok G h'" .
  moreover from replace_type_reshaped [OF run] c have "complex_ok h'"
    by (blast intro: complex_ok_reshaped)
  ultimately show ?thesis by (simp add: well_formed_def)
qed

lemma loop_canonical:
  assumes rt: "\<And>h e h' k. well_formed r G h \<Longrightarrow> rt h e = Inr (h', k) \<Longrightarrow>
                 well_formed r G h' \<and> k = kind_of h' e \<and> canonical d h' e \<and>
                 (\<forall>m b. canonical m h b \<longrightarrow> h' b = h b)"
  shows "replace_type_loop rt h es sc n = Inr (h1, sc1, n1) \<Longrightarrow> well_formed r G h \<Longrightarrow>
         well_formed r G h1 \<and> (\<forall>m b. canonical m h b \<longrightarrow> h1 b = h b) \<and>
         (\<forall>e\<in>set es. canonical d h1 e) \<and>
         n1 = n + length (nonvoid_elements h1 es) \<and>
         sc1 = (if nonvoid_elements h1 es = [] then sc
                else kind_of h1 (last (nonvoid_elements h1 es)))"
proof (induction es arbitrary: h sc n)
  case Nil
  then show ?case by (simp add: nonvoid_elements_def)
next
  case (Cons e es)
  let ?sc = "if k \<noteq> FFI_TYPE_VOID then k else sc"
  from Cons.prems(1) obtain h2 k where first: "rt h e = Inr (h2, k)"
    and rest: "replace_type_loop rt h2 es (if k \<noteq> FFI_TYPE_VOID then k else sc)
           (if k \<noteq> FFI_TYPE_VOID then n + 1 else n) = Inr (h1, sc1, n1)"
    by (rule replace_type_loop_Cons)
  from rt [OF Cons.prems(2) first] have wf2: "well_formed r G h2" and k: "k = kind_of h2 e"
    and ce: "canonical d h2 e" and f2: "\<And>m b. canonical m h b \<Longrightarrow> h2 b = h b" by simp_all
  from Cons.IH [OF rest wf2] have wf1: "well_formed r G h1"
    and f1: "\<And>m b. canonical m h2 b \<Longrightarrow> h1 b = h2 b"
    and ces: "\<forall>e\<in>set es. canonical d h1 e"
    and n1: "n1 = (if k \<noteq> FFI_TYPE_VOID then n + 1 else n) + length (nonvoid_elements h1 es)"
    and sc1: "sc1 = (if nonvoid_elements h1 es = [] then (if k \<noteq> FFI_TYPE_VOID then k else sc)
                else kind_of h1 (last (nonvoid_elements h1 es)))"
    by simp_all
  have ce1: "canonical d h1 e" using f1 ce by (rule canonical_frame)
  have "h1 e = h2 e" using ce by (rule f1)
  then have "kind_of h1 e = kind_of h2 e" by (rule kind_of_same)
  with k have k1: "kind_of h1 e = k" by simp
  have fr: "h1 b = h b" if "canonical m h b" for m b
  proof -
    have "canonical m h2 b" using f2 that by (rule canonical_frame)
    then have "h1 b = h2 b" by (rule f1)
    with f2 [OF that] show ?thesis by simp
  qed
  have "n1 = n + length (nonvoid_elements h1 (e # es))"
    using n1 k1 by (simp add: nonvoid_elements_Cons)
  moreover have "sc1 = (if nonvoid_elements h1 (e # es) = [] then sc
                else kind_of h1 (last (nonvoid_elements h1 (e # es))))"
    using sc1 k1 by (simp add: nonvoid_elements_Cons)
  ultimately show ?case using wf1 fr ce1 ces by simp
qed

lemma canonical_0: "\<not> canonical 0 h a"
  by simp

lemma replace_type_canonical:
  "well_formed r G h \<Longrightarrow> replace_type n G h a False = Inr (h', k) \<Longrightarrow>
   well_formed r G h' \<and> k = kind_of h' a \<and> canonical (n + 2) h' a \<and>
   (\<forall>m b. canonical m h b \<longrightarrow> h' b = h b)"
proof (induction n arbitrary: h a h' k)
  case 0
  then show ?case by (simp add: replace_type.simps)
next
  case (Suc n)
  note wf = Suc.prems(1) and run = Suc.prems(2)
  from wf have sok: "statics_ok G h" and rk: "ranked r G h" and cok: "complex_ok h"
    by (simp_all add: well_formed_def)
  have main: "k = kind_of h' a \<and> canonical (Suc n + 2) h' a \<and>
      (\<forall>m b. canonical m h b \<longrightarrow> h' b = h b)"
    using run
  proof (cases rule: replace_type_Inr_cases)
    case null
    then show ?thesis by (simp add: kind_of_def)
  next
    case (complex t c cs ct es)
    let ?t' = "t\<lparr>elements := es, type := FFI_TYPE_STRUCT,
                 size_bytes := size_bytes ct * 2, alignment := alignment ct\<rparr>"
    have fr: "h' b = h b" if "canonical m h b" for m b
    proof -
      have "b \<noteq> a"
      proof
        assume "b = a"
        with that complex(1) have "canonical m h a" "a \<noteq> 0" by simp_all
        then show False using complex(2,3) by (cases m) auto
      qed
      then show ?thesis by (simp add: complex(7))
    qed
    from complex_struct_elements_Some [OF complex(6)]
    obtain x where x: "x \<in> {ffi_type_float G, ffi_type_double G, ffi_type_longdouble G}"
      and es: "es = [x, x]" by blast
    from x have "x \<in> {ffi_type_float G, ffi_type_double G, ffi_type_longdouble G, ffi_type_sint64 G}"
      by blast
    from statics_canonical [OF sok this] have cx: "canonical 2 h x" and kx: "kind_of h x \<noteq> FFI_TYPE_VOID"
      by simp_all
    have cx': "canonical 2 h' x" using fr cx by (rule canonical_frame)
    then have cxn: "canonical (n + 2) h' x" by (rule canonical_mono) simp
    have "h' x = h x" using cx by (rule fr)
    then have "kind_of h' x = kind_of h x" by (rule kind_of_same)
    with kx have kx': "kind_of h' x \<noteq> FFI_TYPE_VOID" by simp
    have a': "h' a = Some ?t'" by (simp add: complex(7))
    from complex_okD [OF cok complex(2,3,4,5)] have sz: "size_bytes ct * 2 \<noteq> 0" by simp
    have "kept_struct h' (elements ?t')" using kx' by (simp add: es kept_struct_def nonvoid_elements_def)
    then have "canonical (Suc (n + 2)) h' a"
      using a' sz cxn by (intro canonical_structI [where t = ?t']) (simp_all add: es)
    moreover have "k = kind_of h' a" using a' complex(1,8) by (simp add: kind_of_Some)
    ultimately show ?thesis using fr by simp
  next
    case (longdouble t s)
    then show ?thesis by simp
  next
    case (zero t)
    have fr: "h' b = h b" if "canonical m h b" for m b
    proof -
      have "b \<noteq> a"
      proof
        assume "b = a"
        with that zero(1) have "canonical m h a" "a \<noteq> 0" by simp_all
        then show False using zero(2,3,4) by (cases m) auto
      qed
      then show ?thesis by (simp add: zero(5))
    qed
    have a': "h' a = Some (t\<lparr>type := FFI_TYPE_VOID\<rparr>)" by (simp add: zero(5))
    then have "canonical (Suc (n + 2)) h' a"
      by (intro canonical_scalarI [where t = "t\<lparr>type := FFI_TYPE_VOID\<rparr>"]) simp_all
    moreover have "k = kind_of h' a" using a' zero(1,6) by (simp add: kind_of_Some)
    ultimately show ?thesis using fr by simp
  next
    case (struct t h1 sc cnt t1)
    let ?es = "elements t"
    let ?nv = "nonvoid_elements h1 ?es"
    have L: "well_formed r G h1 \<and> (\<forall>m b. canonical m h b \<longrightarrow> h1 b = h b) \<and>
         (\<forall>e\<in>set ?es. canonical (n + 2) h1 e) \<and>
         cnt = 0 + length ?nv \<and>
         sc = (if ?nv = [] then FFI_TYPE_VOID else kind_of h1 (last ?nv))"
      using struct(5) wf by (rule loop_canonical [rotated 1]) (use Suc.IH in blast)
    then have f1: "\<And>m b. canonical m h b \<Longrightarrow> h1 b = h b"
      and ces: "\<forall>e\<in>set ?es. canonical (n + 2) h1 e"
      and cnt: "cnt = length ?nv"
      and sc: "sc = (if ?nv = [] then FFI_TYPE_VOID else kind_of h1 (last ?nv))"
      by simp_all
    have els: "\<forall>e\<in>set ?es. r e < r a" using ranked_elements [OF rk struct(2)] by blast
    have "ranked r G h1 \<and> (\<forall>b. r a \<le> r b \<longrightarrow> h1 b = h b)"
      using struct(5) rk els by (rule loop_ranked [rotated 1]) (use replace_type_ranked in blast)
    then have "h1 a = h a" by simp
    with struct(2,6) have t1: "t1 = t" by simp
    have h1a: "h1 a = Some t" using struct(6) t1 by simp
    have ks: "kept_struct h1 ?es \<longleftrightarrow> 2 \<le> cnt \<or> (cnt = 1 \<and> sc = FFI_TYPE_STRUCT)"
      unfolding kept_struct_cases cnt sc by (cases ?nv) simp_all
    have same: "h' = h1 \<and> k = FFI_TYPE_STRUCT" if "kept_struct h1 ?es"
    proof (cases "cnt > 1")
      case True
      with struct(7) t1 struct(3) show ?thesis by simp
    next
      case False
      with that ks have "sc = FFI_TYPE_STRUCT" by auto
      moreover have "h1(a \<mapsto> t\<lparr>type := FFI_TYPE_STRUCT\<rparr>) = h1"
        using h1a struct(3) by (auto simp add: fun_upd_idem)
      ultimately show ?thesis using struct(8) False t1 by simp
    qed
    have fr: "h' b = h b" if cb: "canonical m h b" for m b
    proof (cases "b = a")
      case False
      have "h' b = h1 b"
        using struct(7,8) False by (cases "cnt > 1") simp_all
      with f1 [OF cb] show ?thesis by simp
    next
      case True
      with cb obtain m' where m: "m = Suc m'" by (cases m) simp_all
      from cb True m have "canonical (Suc m') h a" by simp
      from this struct(1) obtain ta where ta: "h a = Some ta"
        and k: "type ta = FFI_TYPE_STRUCT \<Longrightarrow> kept_struct h (elements ta)"
        and ca: "type ta = FFI_TYPE_STRUCT \<Longrightarrow> \<forall>e\<in>set (elements ta). canonical m' h e"
        by (rule canonical_cases) blast
      from ta struct(2) have "ta = t" by simp
      with k ca struct(3) have kh: "kept_struct h ?es" and ce: "\<forall>e\<in>set ?es. canonical m' h e"
        by simp_all
      have "kind_of h1 e = kind_of h e" if "e \<in> set ?es" for e
        using ce that by (intro kind_of_same f1 [of m' e]) blast
      then have "kept_struct h1 ?es = kept_struct h ?es" by (rule kept_struct_cong)
      with kh same have "h' = h1" by simp
      with f1 [OF cb] show ?thesis by simp
    qed
    have ka: "k = kind_of h' a"
    proof (cases "cnt > 1")
      case True
      with struct(7) struct(1,6) show ?thesis by (simp add: kind_of_Some)
    next
      case False
      with struct(8) struct(1) show ?thesis by (simp add: kind_of_Some)
    qed
    have "canonical (Suc (n + 2)) h' a"
    proof (cases "kept_struct h1 ?es")
      case True
      with same have "h' = h1" by simp
      with True h1a struct(3,4) ces show ?thesis
        by (intro canonical_structI [where t = t]) simp_all
    next
      case False
      with ks have c1: "\<not> cnt > 1" and ns: "sc \<noteq> FFI_TYPE_STRUCT \<or> cnt = 0" by auto
      from c1 struct(8) t1 have e: "h' = h1(a \<mapsto> t\<lparr>type := sc\<rparr>)" by simp
      have nc: "sc \<noteq> FFI_TYPE_COMPLEX"
        using loop_reshaped [OF _ struct(5)] replace_type_reshaped by blast
      have "sc \<noteq> FFI_TYPE_STRUCT"
      proof (cases "cnt = 0")
        case True
        with cnt sc show ?thesis by simp
      next
        case False
        with ns show ?thesis by simp
      qed
      with nc e show ?thesis
        by (intro canonical_scalarI [where t = "t\<lparr>type := sc\<rparr>"]) simp_all
    qed
    with ka fr show ?thesis by simp
  next
    case (scalar t)
    have "canonical (Suc (n + 2)) h' a"
      using scalar by (intro canonical_scalarI [where t = t]) simp_all
    with scalar show ?thesis by (simp add: kind_of_Some)
  qed
  then have fr: "\<And>m b. canonical m h b \<Longrightarrow> h' b = h b" by blast
  from well_formed_step [OF wf run fr] main show ?case by simp
qed

subsection \<open>The store after \<open>ffi_prep_cif_machdep\<close>\<close>

lemma replace_args_canonical:
  "well_formed r G h \<Longrightarrow> replace_args n G h as = Inr h1 \<Longrightarrow>
   well_formed r G h1 \<and> (\<forall>a\<in>set as. canonical (n + 2) h1 a) \<and>
   (\<forall>m b. canonical m h b \<longrightarrow> h1 b = h b)"
proof (induction as arbitrary: h)
  case Nil
  then show ?case by simp
next
  case (Cons a as)
  from Cons.prems(2) obtain h2 k where first: "replace_type n G h a False = Inr (h2, k)"
    and rest: "replace_args n G h2 as = Inr h1"
    by (auto split: sum.splits)
  from replace_type_canonical [OF Cons.prems(1) first]
  have wf2: "well_formed r G h2" and ca: "canonical (n + 2) h2 a"
    and f2: "\<And>m b. canonical m h b \<Longrightarrow> h2 b = h b" by simp_all
  from Cons.IH [OF wf2 rest] have wf1: "well_formed r G h1"
    and cas: "\<forall>a\<in>set as. canonical (n + 2) h1 a"
    and f1: "\<And>m b. canonical m h2 b \<Longrightarrow> h1 b = h2 b" by simp_all
  have "canonical (n + 2) h1 a" using f1 ca by (rule canonical_frame)
  moreover have "h1 b = h b" if "canonical m h b" for m b
  proof -
    have "canonical m h2 b" using f2 that by (rule canonical_frame)
    then have "h1 b = h2 b" by (rule f1)
    with f2 [OF that] show ?thesis by simp
  qed
  ultimately show ?case using wf1 cas by simp
qed

lemma replace_type_in_results:
  "kind_of h a \<noteq> FFI_TYPE_LONGDOUBLE \<Longrightarrow>
   replace_type n G h a True = replace_type n G h a False"
  by (cases n) (auto simp add: replace_type.simps kind_of_def split: option.splits if_splits)

text \<open>Rewriting a long double to the struct of two 64-bit integers keeps the rest canonical.\<close>

lemma kept_struct_retag:
  assumes k: "\<And>e. kind_of h' e = (if e = a then FFI_TYPE_STRUCT else kind_of h e)"
      and a: "kind_of h a = FFI_TYPE_LONGDOUBLE"
      and ks: "kept_struct h es"
  shows "kept_struct h' es"
proof -
  have nv: "nonvoid_elements h' es = nonvoid_elements h es"
    unfolding nonvoid_elements_def by (rule filter_cong) (auto simp add: k a)
  show ?thesis
  proof (cases "nonvoid_elements h es")
    case Nil
    with ks show ?thesis by (simp add: kept_struct_def)
  next
    case (Cons e es')
    show ?thesis
    proof (cases es')
      case Nil
      with Cons ks have "kind_of h e = FFI_TYPE_STRUCT" by (simp add: kept_struct_def)
      then have "kind_of h' e = FFI_TYPE_STRUCT" by (simp add: k)
      with Cons Nil show ?thesis by (simp add: kept_struct_def nv)
    next
      case (Cons e' es'')
      with \<open>nonvoid_elements h es = e # es'\<close> show ?thesis by (simp add: kept_struct_def nv)
    qed
  qed
qed

lemma longdouble_rewrite_canonical:
  assumes sok: "statics_ok G h" and a0: "a \<noteq> 0" and t: "h a = Some t"
      and ld: "type t = FFI_TYPE_LONGDOUBLE" and s: "h (ffi_type_sint64 G) = Some s"
      and h': "h' = h(a \<mapsto> t\<lparr>type := FFI_TYPE_STRUCT, size_bytes := size_bytes s * 2,
                alignment := 16, elements := [ffi_type_sint64 G, ffi_type_sint64 G]\<rparr>)"
  shows "canonical 2 h' a" and "canonical m h b \<Longrightarrow> canonical (Suc m) h' b"
proof -
  let ?t' = "t\<lparr>type := FFI_TYPE_STRUCT, size_bytes := size_bytes s * 2,
                alignment := 16, elements := [ffi_type_sint64 G, ffi_type_sint64 G]\<rparr>"
  from sok s have s0: "ffi_type_sint64 G \<noteq> 0" and st: "type s = FFI_TYPE_SINT64"
    and sz: "size_bytes s = 8" by (auto elim: statics_sint64)
  from st ld t s have ne: "ffi_type_sint64 G \<noteq> a" by auto
  have a': "h' a = Some ?t'" by (simp add: h')
  have s': "h' (ffi_type_sint64 G) = Some s" using ne s by (simp add: h')
  have k: "kind_of h' e = (if e = a then FFI_TYPE_STRUCT else kind_of h e)" for e
    using a0 by (simp add: kind_of_def h')
  have ka: "kind_of h a = FFI_TYPE_LONGDOUBLE" using a0 t ld by (simp add: kind_of_Some)
  have c1: "canonical (Suc 0) h' (ffi_type_sint64 G)"
    using s' st by (intro canonical_scalarI [where t = s]) simp_all
  have "kind_of h' (ffi_type_sint64 G) = FFI_TYPE_SINT64" using s0 s' st by (simp add: kind_of_Some)
  then have "kept_struct h' (elements ?t')" by (simp add: kept_struct_def nonvoid_elements_def)
  then have "canonical (Suc (Suc 0)) h' a"
    using a' c1 sz by (intro canonical_structI [where t = ?t']) simp_all
  then show c2: "canonical 2 h' a" by (simp only: numeral_2_eq_2)
  show "canonical m h b \<Longrightarrow> canonical (Suc m) h' b"
  proof (induction m arbitrary: b)
    case 0
    then show ?case by simp
  next
    case (Suc m)
    show ?case
    proof (cases "b = 0 \<or> b = a")
      case True
      then show ?thesis
      proof
        assume "b = 0" then show ?thesis by simp
      next
        assume "b = a"
        with c2 have "canonical 2 h' b" by simp
        then show ?thesis by (rule canonical_mono) simp
      qed
    next
      case False
      then have b0: "b \<noteq> 0" and ba: "b \<noteq> a" by simp_all
      from Suc.prems b0 obtain tb where tb: "h b = Some tb"
        and nc: "type tb \<noteq> FFI_TYPE_COMPLEX"
        and sz: "type tb = FFI_TYPE_STRUCT \<Longrightarrow> size_bytes tb \<noteq> 0"
        and els: "type tb = FFI_TYPE_STRUCT \<Longrightarrow> \<forall>e\<in>set (elements tb). canonical m h e"
        and ks: "type tb = FFI_TYPE_STRUCT \<Longrightarrow> kept_struct h (elements tb)"
        by (rule canonical_cases) blast
      have tb': "h' b = Some tb" using tb ba by (simp add: h')
      show ?thesis
      proof (cases "type tb = FFI_TYPE_STRUCT")
        case True
        have "kept_struct h' (elements tb)" using k ka ks [OF True] by (rule kept_struct_retag)
        moreover have "\<forall>e\<in>set (elements tb). canonical (Suc m) h' e"
          using els [OF True] Suc.IH by blast
        ultimately show ?thesis
          using tb' True sz by (intro canonical_structI [where t = tb]) simp_all
      next
        case False
        with tb' nc show ?thesis by (intro canonical_scalarI [where t = tb])
      qed
    qed
  qed
qed

text \<open>What the two passes of \<open>ffi_prep_cif_machdep\<close> leave behind.\<close>

lemma prep_cif_types_canonical:
  assumes wf: "well_formed r G h"
      and run: "ffi_prep_cif_machdep False fuel G h cif = Inr (h', cif', st)"
  shows "\<forall>a \<in> set (take (unat (nargs cif)) (arg_types cif)) \<union> {rtype cif}. canonical (fuel + 3) h' a"
    and "kind_of h (rtype cif) = FFI_TYPE_LONGDOUBLE \<Longrightarrow> kind_of h' (rtype cif) = FFI_TYPE_STRUCT"
    and "(cif', st) = prep_cif_common cif"
proof -
  let ?as = "take (unat (nargs cif)) (arg_types cif)"
  let ?R = "rtype cif"
  from run obtain h1 k where av: "arg_vector cif = Inr ?as"
    and args: "replace_args fuel G h ?as = Inr h1"
    and ret: "replace_type fuel G h1 ?R True = Inr (h', k)"
    and st: "(cif', st) = prep_cif_common cif"
    by (auto simp add: ffi_prep_cif_machdep_def arg_vector_def split: sum.splits if_splits)
  show "(cif', st) = prep_cif_common cif" by (rule st)
  from replace_args_canonical [OF wf args] have wf1: "well_formed r G h1"
    and cas: "\<forall>a\<in>set ?as. canonical (fuel + 2) h1 a"
    and f1: "\<And>m b. canonical m h b \<Longrightarrow> h1 b = h b" by simp_all
  from wf1 have sok1: "statics_ok G h1" by (simp add: well_formed_def)
  show "\<forall>a \<in> set ?as \<union> {?R}. canonical (fuel + 3) h' a"
  proof (cases "kind_of h1 ?R = FFI_TYPE_LONGDOUBLE")
    case False
    then have "replace_type fuel G h1 ?R False = Inr (h', k)"
      using ret by (simp add: replace_type_in_results)
    from replace_type_canonical [OF wf1 this] have cr: "canonical (fuel + 2) h' ?R"
      and f2: "\<And>m b. canonical m h1 b \<Longrightarrow> h' b = h1 b" by simp_all
    have "canonical (fuel + 2) h' a" if "a \<in> set ?as" for a
    proof -
      from cas that have "canonical (fuel + 2) h1 a" by blast
      with f2 show ?thesis by (rule canonical_frame)
    qed
    with cr have "\<forall>a \<in> set ?as \<union> {?R}. canonical (fuel + 2) h' a" by blast
    moreover have le: "fuel + 2 \<le> fuel + 3" by simp
    ultimately show ?thesis using canonical_mono [OF _ le, of h'] by blast
  next
    case True
    then obtain t where r0: "?R \<noteq> 0" and t: "h1 ?R = Some t" and ld: "type t = FFI_TYPE_LONGDOUBLE"
      using kind_of_nonvoid [of h1 ?R] by auto
    obtain n where n: "fuel = Suc n" using ret by (cases fuel) (simp_all add: replace_type.simps)
    from ret [unfolded n] obtain s where s: "h1 (ffi_type_sint64 G) = Some s"
      and h': "h' = h1(?R \<mapsto> t\<lparr>type := FFI_TYPE_STRUCT, size_bytes := size_bytes s * 2,
                alignment := 16, elements := [ffi_type_sint64 G, ffi_type_sint64 G]\<rparr>)"
      using t ld r0 by (cases rule: replace_type_Inr_cases) auto
    note lr = longdouble_rewrite_canonical [OF sok1 r0 t ld s h']
    have "canonical (fuel + 3) h' a" if "a \<in> set ?as" for a
    proof -
      from cas that have "canonical (fuel + 2) h1 a" by blast
      then have "canonical (Suc (fuel + 2)) h' a" by (rule lr(2))
      then show ?thesis by (rule canonical_mono) simp
    qed
    moreover have "canonical (fuel + 3) h' ?R" using lr(1) by (rule canonical_mono) simp
    ultimately show ?thesis by blast
  qed
  show "kind_of h' ?R = FFI_TYPE_STRUCT" if ld: "kind_of h ?R = FFI_TYPE_LONGDOUBLE"
  proof -
    from ld obtain t where r0: "?R \<noteq> 0" and t: "h ?R = Some t" and tt: "type t = FFI_TYPE_LONGDOUBLE"
      using kind_of_nonvoid [of h ?R] by auto
    have "canonical (Suc 0) h ?R" using t tt by (intro canonical_scalarI [where t = t]) simp_all
    then have "h1 ?R = h ?R" by (rule f1)
    with t have t1: "h1 ?R = Some t" by simp
    obtain n where n: "fuel = Suc n" using ret by (cases fuel) (simp_all add: replace_type.simps)
    from ret [unfolded n] have "k = FFI_TYPE_STRUCT" "h' ?R \<noteq> None \<and> type (the (h' ?R)) = FFI_TYPE_STRUCT"
      using t1 tt r0 by (cases rule: replace_type_Inr_cases; auto)+
    with r0 show ?thesis by (auto simp add: kind_of_def)
  qed
qed

subsection \<open>Enough fuel\<close>

text \<open>
  With more fuel than the rank of the descriptor, the model never stops for lack of
  fuel: what it returns is what the C function does.
\<close>

lemma loop_enough_fuel:
  assumes rt: "\<And>h e. ranked r G h \<Longrightarrow> r e < n \<Longrightarrow> rt h e \<noteq> Inl OutOfFuel"
      and pres: "\<And>h e h' k. ranked r G h \<Longrightarrow> rt h e = Inr (h', k) \<Longrightarrow> ranked r G h'"
  shows "ranked r G h \<Longrightarrow> \<forall>e\<in>set es. r e < n \<Longrightarrow>
         replace_type_loop rt h es sc c \<noteq> Inl OutOfFuel"
proof (induction es arbitrary: h sc c)
  case Nil
  then show ?case by simp
next
  case (Cons e es)
  from Cons.prems have e: "r e < n" and es: "\<forall>e\<in>set es. r e < n" by simp_all
  show ?case
  proof (cases "rt h e")
    case (Inl err)
    with rt [OF Cons.prems(1) e] show ?thesis by simp
  next
    case (Inr p)
    obtain h2 k where p: "p = (h2, k)" by (cases p)
    from pres [OF Cons.prems(1) Inr [unfolded p]] have "ranked r G h2" .
    from Cons.IH [OF this es] Inr p show ?thesis by simp
  qed
qed

lemma replace_type_enough_fuel:
  "ranked r G h \<Longrightarrow> r a < n \<Longrightarrow> replace_type n G h a ir \<noteq> Inl OutOfFuel"
proof (induction n arbitrary: h a ir)
  case 0
  then show ?case by simp
next
  case (Suc n)
  show ?case
  proof (cases "a = 0")
    case True
    then show ?thesis by (simp add: replace_type_null)
  next
    case False
    show ?thesis
    proof (cases "h a")
      case None
      with False show ?thesis by (simp add: replace_type_undefined)
    next
      case (Some t)
      consider "type t = FFI_TYPE_COMPLEX"
        | "type t \<noteq> FFI_TYPE_COMPLEX" "ir" "type t = FFI_TYPE_LONGDOUBLE"
        | "type t = FFI_TYPE_STRUCT" "size_bytes t = 0"
        | "type t = FFI_TYPE_STRUCT" "size_bytes t \<noteq> 0"
        | "type t \<noteq> FFI_TYPE_COMPLEX" "type t \<noteq> FFI_TYPE_STRUCT"
          "\<not> (ir \<and> type t = FFI_TYPE_LONGDOUBLE)"
        by auto
      then show ?thesis
      proof cases
        case 1
        show ?thesis
          by (simp only: replace_type_complex [of a h t n G ir, OF False Some 1])
             (simp split: list.splits option.splits)
      next
        case 2
        show ?thesis
          using 2(2) by (simp add: replace_type_longdouble [of a h t n G, OF False Some 2(3)]
              split: option.splits)
      next
        case 3
        show ?thesis by (simp add: replace_type_zero [of a h t n G ir, OF False Some 3])
      next
        case 4
        have els: "\<forall>e\<in>set (elements t). r e < n"
          using ranked_elements [OF Suc.prems(1) Some] Suc.prems(2) by fastforce
        have "replace_type_loop (\<lambda>h' e. replace_type n G h' e False) h (elements t)
                FFI_TYPE_VOID 0 \<noteq> Inl OutOfFuel"
          using Suc.prems(1) els
          by (rule loop_enough_fuel [rotated 2]) (use Suc.IH replace_type_ranked in blast)+
        then show ?thesis
          by (simp only: replace_type_struct [of a h t n G ir, OF False Some 4])
             (auto split: sum.splits option.splits prod.splits)
      next
        case 5
        show ?thesis
          by (simp add: replace_type_scalar [of a h t ir n G, OF False Some 5(2) 5(1) 5(3)])
      qed
    qed
  qed
qed

lemma replace_args_enough_fuel:
  "ranked r G h \<Longrightarrow> \<forall>a\<in>set as. r a < n \<Longrightarrow> replace_args n G h as \<noteq> Inl OutOfFuel"
proof (induction as arbitrary: h)
  case Nil
  then show ?case by simp
next
  case (Cons a as)
  from Cons.prems have a: "r a < n" and as: "\<forall>a\<in>set as. r a < n" by simp_all
  show ?case
  proof (cases "replace_type n G h a False")
    case (Inl err)
    with replace_type_enough_fuel [OF Cons.prems(1) a, of False] show ?thesis by simp
  next
    case (Inr p)
    obtain h2 k where p: "p = (h2, k)" by (cases p)
    from replace_type_ranked [OF Cons.prems(1) Inr [unfolded p]] have "ranked r G h2" by simp
    from Cons.IH [OF this as] Inr p show ?thesis by simp
  qed
qed

lemma replace_args_ranked:
  "ranked r G h \<Longrightarrow> replace_args n G h as = Inr h1 \<Longrightarrow> ranked r G h1"
proof (induction as arbitrary: h)
  case Nil
  then show ?case by simp
next
  case (Cons a as)
  from Cons.prems(2) obtain h2 k where first: "replace_type n G h a False = Inr (h2, k)"
    and rest: "replace_args n G h2 as = Inr h1"
    by (auto split: sum.splits)
  from replace_type_ranked [OF Cons.prems(1) first] have "ranked r G h2" by simp
  then show ?case using rest by (rule Cons.IH)
qed

lemma prep_cif_machdep_enough_fuel:
  assumes rk: "ranked r G h"
      and fuel: "\<forall>a \<in> set (take (unat (nargs cif)) (arg_types cif)) \<union> {rtype cif}. r a < fuel"
  shows "ffi_prep_cif_machdep False fuel G h cif \<noteq> Inl OutOfFuel"
proof (cases "arg_vector cif")
  case (Inl err)
  then have "err = Undefined" by (auto simp add: arg_vector_def split: if_splits)
  with Inl show ?thesis by (simp add: ffi_prep_cif_machdep_def)
next
  case (Inr as)
  then have as: "as = take (unat (nargs cif)) (arg_types cif)"
    by (auto simp add: arg_vector_def split: if_splits)
  show ?thesis
  proof (cases "replace_args fuel G h as")
    case (Inl err)
    with replace_args_enough_fuel [OF rk, of as fuel] fuel as \<open>arg_vector cif = Inr as\<close>
    show ?thesis by (simp add: ffi_prep_cif_machdep_def)
  next
    case (Inr h1)
    from replace_args_ranked [OF rk Inr] have "ranked r G h1" .
    from replace_type_enough_fuel [OF this, of "rtype cif" fuel True] fuel
    have "replace_type fuel G h1 (rtype cif) True \<noteq> Inl OutOfFuel" by simp
    with Inr \<open>arg_vector cif = Inr as\<close> show ?thesis
      by (auto simp add: ffi_prep_cif_machdep_def split: sum.splits prod.splits)
  qed
qed

subsection \<open>Returning a result\<close>

text \<open>
  On a well-formed store in which every descriptor that is pointed to is present,
  \<open>replace_type\<close> returns once the fuel exceeds the rank of its argument: it neither
  aborts nor reads through a pointer that refers to nothing.  So does
  \<open>ffi_prep_cif_machdep\<close>.
\<close>

lemma all_present_upd:
  assumes ap: "all_present h" and t: "h a = Some t"
      and els: "\<forall>e\<in>set (elements t'). e = 0 \<or> h e \<noteq> None"
      and nc: "type t' \<noteq> FFI_TYPE_COMPLEX"
      and ty: "type t' = type t \<or> (type t \<noteq> FFI_TYPE_FLOAT \<and> type t \<noteq> FFI_TYPE_DOUBLE \<and>
                 type t \<noteq> FFI_TYPE_LONGDOUBLE)"
  shows "all_present (h(a \<mapsto> t'))"
  unfolding all_present_def
proof (intro allI impI)
  fix b tb
  assume b: "(h(a \<mapsto> t')) b = Some tb"
  show "(\<forall>e\<in>set (elements tb). e = 0 \<or> (h(a \<mapsto> t')) e \<noteq> None) \<and>
        (type tb = FFI_TYPE_COMPLEX \<longrightarrow>
           (case elements tb of
              [] \<Rightarrow> False
            | c # _ \<Rightarrow>
                (case (h(a \<mapsto> t')) c of
                   None \<Rightarrow> False
                 | Some ct \<Rightarrow>
                     type ct = FFI_TYPE_FLOAT \<or> type ct = FFI_TYPE_DOUBLE \<or>
                     type ct = FFI_TYPE_LONGDOUBLE)))"
  proof (cases "b = a")
    case True
    with b have "tb = t'" by simp
    with els nc show ?thesis by auto
  next
    case False
    with b have hb: "h b = Some tb" by simp
    from ap hb have e1: "\<forall>e\<in>set (elements tb). e = 0 \<or> h e \<noteq> None"
      and c1: "type tb = FFI_TYPE_COMPLEX \<longrightarrow>
           (case elements tb of
              [] \<Rightarrow> False
            | c # _ \<Rightarrow>
                (case h c of
                   None \<Rightarrow> False
                 | Some ct \<Rightarrow>
                     type ct = FFI_TYPE_FLOAT \<or> type ct = FFI_TYPE_DOUBLE \<or>
                     type ct = FFI_TYPE_LONGDOUBLE))"
      unfolding all_present_def by blast+
    from e1 have "\<forall>e\<in>set (elements tb). e = 0 \<or> (h(a \<mapsto> t')) e \<noteq> None" by auto
    moreover from c1 t ty have "type tb = FFI_TYPE_COMPLEX \<longrightarrow>
           (case elements tb of
              [] \<Rightarrow> False
            | c # _ \<Rightarrow>
                (case (h(a \<mapsto> t')) c of
                   None \<Rightarrow> False
                 | Some ct \<Rightarrow>
                     type ct = FFI_TYPE_FLOAT \<or> type ct = FFI_TYPE_DOUBLE \<or>
                     type ct = FFI_TYPE_LONGDOUBLE))"
      by (auto split: list.splits option.splits)
    ultimately show ?thesis by blast
  qed
qed

lemma all_present_elements:
  "all_present h \<Longrightarrow> h a = Some t \<Longrightarrow> e \<in> set (elements t) \<Longrightarrow> e = 0 \<or> h e \<noteq> None"
  unfolding all_present_def by blast

lemma all_present_complex:
  assumes "all_present h" "h a = Some t" "type t = FFI_TYPE_COMPLEX"
  obtains c cs ct where "elements t = c # cs" "h c = Some ct"
    "type ct = FFI_TYPE_FLOAT \<or> type ct = FFI_TYPE_DOUBLE \<or> type ct = FFI_TYPE_LONGDOUBLE"
proof -
  from assms have "case elements t of
              [] \<Rightarrow> False
            | c # _ \<Rightarrow>
                (case h c of
                   None \<Rightarrow> False
                 | Some ct \<Rightarrow>
                     type ct = FFI_TYPE_FLOAT \<or> type ct = FFI_TYPE_DOUBLE \<or>
                     type ct = FFI_TYPE_LONGDOUBLE)"
    unfolding all_present_def by blast
  then show ?thesis using that by (auto split: list.splits option.splits)
qed

lemma statics_present:
  assumes "statics_ok G h"
  shows "h (ffi_type_float G) \<noteq> None" "h (ffi_type_double G) \<noteq> None"
    "h (ffi_type_longdouble G) \<noteq> None" "h (ffi_type_sint64 G) \<noteq> None"
  using assms by (auto simp add: statics_ok_def kind_of_def split: option.splits if_splits)

lemma loop_returns:
  assumes rt: "\<And>h e. well_formed r G h \<Longrightarrow> all_present h \<Longrightarrow> e = 0 \<or> h e \<noteq> None \<Longrightarrow>
                 r e < n \<Longrightarrow>
                 \<exists>h' k. rt h e = Inr (h', k) \<and> well_formed r G h' \<and> all_present h' \<and>
                   (\<forall>b. (h' b = None) = (h b = None))"
  shows "well_formed r G h \<Longrightarrow> all_present h \<Longrightarrow>
         \<forall>e\<in>set es. (e = 0 \<or> h e \<noteq> None) \<and> r e < n \<Longrightarrow>
         \<exists>h' sc' c'. replace_type_loop rt h es sc c = Inr (h', sc', c') \<and>
            well_formed r G h' \<and> all_present h' \<and> (\<forall>b. (h' b = None) = (h b = None))"
proof (induction es arbitrary: h sc c)
  case Nil
  then show ?case by simp
next
  case (Cons e es)
  from Cons.prems(3) have e: "e = 0 \<or> h e \<noteq> None" "r e < n" by simp_all
  from rt [OF Cons.prems(1,2) e] obtain h2 k where
    first: "rt h e = Inr (h2, k)" and wf2: "well_formed r G h2" and ap2: "all_present h2"
    and dom2: "\<forall>b. (h2 b = None) = (h b = None)" by blast
  from Cons.prems(3) dom2 have es: "\<forall>e\<in>set es. (e = 0 \<or> h2 e \<noteq> None) \<and> r e < n" by simp
  from Cons.IH [OF wf2 ap2 es, of "if k \<noteq> FFI_TYPE_VOID then k else sc"
      "if k \<noteq> FFI_TYPE_VOID then c + 1 else c"]
  obtain h' sc' c' where
    rest: "replace_type_loop rt h2 es (if k \<noteq> FFI_TYPE_VOID then k else sc)
             (if k \<noteq> FFI_TYPE_VOID then c + 1 else c) = Inr (h', sc', c')"
    and r: "well_formed r G h'" "all_present h'" "\<forall>b. (h' b = None) = (h2 b = None)"
    by blast
  from first rest have "replace_type_loop rt h (e # es) sc c = Inr (h', sc', c')"
    by (simp split: if_splits)
  with r dom2 show ?case by simp
qed

lemma replace_type_returns:
  "well_formed r G h \<Longrightarrow> all_present h \<Longrightarrow> a = 0 \<or> h a \<noteq> None \<Longrightarrow> r a < n \<Longrightarrow>
   \<exists>h' k. replace_type n G h a False = Inr (h', k) \<and> well_formed r G h' \<and> all_present h' \<and>
     (\<forall>b. (h' b = None) = (h b = None))"
proof (induction n arbitrary: h a)
  case 0
  then show ?case by simp
next
  case (Suc n)
  note wf = Suc.prems(1) and ap = Suc.prems(2)
  from wf have rk: "ranked r G h" and so: "statics_ok G h" by (simp_all add: well_formed_def)
  have main: "\<exists>h' k. replace_type (Suc n) G h a False = Inr (h', k) \<and> all_present h' \<and>
     (\<forall>b. (h' b = None) = (h b = None))"
  proof (cases "a = 0")
    case True
    with ap show ?thesis by (simp add: replace_type_null)
  next
    case False
    with Suc.prems(3) obtain t where Some: "h a = Some t" by auto
    consider "type t = FFI_TYPE_COMPLEX"
      | "type t = FFI_TYPE_STRUCT" "size_bytes t = 0"
      | "type t = FFI_TYPE_STRUCT" "size_bytes t \<noteq> 0"
      | "type t \<noteq> FFI_TYPE_COMPLEX" "type t \<noteq> FFI_TYPE_STRUCT"
      by auto
    then show ?thesis
    proof cases
      case 1
      from all_present_complex [OF ap Some 1] obtain c cs ct where
        c: "elements t = c # cs" "h c = Some ct"
          "type ct = FFI_TYPE_FLOAT \<or> type ct = FFI_TYPE_DOUBLE \<or> type ct = FFI_TYPE_LONGDOUBLE"
        by blast
      then obtain es where es: "complex_struct_elements G (type ct) = Some es"
        and esp: "\<forall>e\<in>set es. h e \<noteq> None"
        using statics_present [OF so] by (auto simp add: complex_struct_elements_def)
      let ?t' = "t\<lparr>elements := es, type := FFI_TYPE_STRUCT,
                    size_bytes := size_bytes ct * 2, alignment := alignment ct\<rparr>"
      have run: "replace_type (Suc n) G h a False = Inr (h(a \<mapsto> ?t'), FFI_TYPE_STRUCT)"
        by (simp only: replace_type_complex [of a h t n G False, OF False Some 1])
           (simp add: c es)
      have "all_present (h(a \<mapsto> ?t'))"
        using ap Some by (rule all_present_upd) (use esp 1 in simp_all)
      with run Some show ?thesis by simp
    next
      case 2
      have run: "replace_type (Suc n) G h a False =
                   Inr (h(a \<mapsto> t\<lparr>type := FFI_TYPE_VOID\<rparr>), FFI_TYPE_VOID)"
        by (rule replace_type_zero [of a h t n G False, OF False Some 2])
      have "all_present (h(a \<mapsto> t\<lparr>type := FFI_TYPE_VOID\<rparr>))"
        using ap Some
        by (rule all_present_upd) (use all_present_elements [OF ap Some] 2 in simp_all)
      with run Some show ?thesis by simp
    next
      case 3
      have els: "\<forall>e\<in>set (elements t). (e = 0 \<or> h e \<noteq> None) \<and> r e < n"
        using ranked_elements [OF rk Some] all_present_elements [OF ap Some] Suc.prems(4)
        by fastforce
      have "\<exists>h' sc' c'. replace_type_loop (\<lambda>h' e. replace_type n G h' e False) h (elements t)
                FFI_TYPE_VOID 0 = Inr (h', sc', c') \<and>
            well_formed r G h' \<and> all_present h' \<and> (\<forall>b. (h' b = None) = (h b = None))"
        using wf ap els by (rule loop_returns [rotated 1]) (use Suc.IH in blast)
      then obtain h1 sc cnt where
        loop: "replace_type_loop (\<lambda>h' e. replace_type n G h' e False) h (elements t)
                FFI_TYPE_VOID 0 = Inr (h1, sc, cnt)"
        and wf1: "well_formed r G h1" and ap1: "all_present h1"
        and dom1: "\<forall>b. (h1 b = None) = (h b = None)" by blast
      have rels: "\<forall>e\<in>set (elements t). r e < r a" using ranked_elements [OF rk Some] by blast
      have "ranked r G h1 \<and> (\<forall>b. r a \<le> r b \<longrightarrow> h1 b = h b)"
        using loop rk rels by (rule loop_ranked [rotated 1]) (use replace_type_ranked in blast)
      then have h1a: "h1 a = Some t" using Some by simp
      let ?nv = "nonvoid_elements h1 (elements t)"
      have L: "well_formed r G h1 \<and> (\<forall>m b. canonical m h b \<longrightarrow> h1 b = h b) \<and>
         (\<forall>e\<in>set (elements t). canonical (n + 2) h1 e) \<and>
         cnt = 0 + length ?nv \<and>
         sc = (if ?nv = [] then FFI_TYPE_VOID else kind_of h1 (last ?nv))"
        using loop wf by (rule loop_canonical [rotated 1]) (use replace_type_canonical in blast)
      have scn: "sc \<noteq> FFI_TYPE_COMPLEX"
      proof (cases "?nv = []")
        case True
        with L show ?thesis by simp
      next
        case False
        then have "last ?nv \<in> set ?nv" by simp
        then have m: "last ?nv \<in> set (elements t)" by (simp add: nonvoid_elements_def)
        with L have "canonical (Suc (Suc n)) h1 (last ?nv)" by simp
        then have "kind_of h1 (last ?nv) \<noteq> FFI_TYPE_COMPLEX"
          by (auto simp add: kind_of_def split: option.splits)
        with L False show ?thesis by simp
      qed
      show ?thesis
      proof (cases "cnt > 1")
        case True
        have "replace_type (Suc n) G h a False = Inr (h1, type t)"
          by (simp only: replace_type_struct [of a h t n G False, OF False Some 3] loop)
             (use h1a True in simp)
        with ap1 dom1 show ?thesis by simp
      next
        case F: False
        have run: "replace_type (Suc n) G h a False = Inr (h1(a \<mapsto> t\<lparr>type := sc\<rparr>), sc)"
          by (simp only: replace_type_struct [of a h t n G False, OF False Some 3] loop)
             (use h1a F in simp)
        have "all_present (h1(a \<mapsto> t\<lparr>type := sc\<rparr>))"
          using ap1 h1a
          by (rule all_present_upd) (use all_present_elements [OF ap1 h1a] 3 scn in simp_all)
        with run dom1 Some show ?thesis by simp
      qed
    next
      case 4
      have "replace_type (Suc n) G h a False = Inr (h, type t)"
        by (rule replace_type_scalar [of a h t False n G, OF False Some 4(2) 4(1)]) simp
      with ap show ?thesis by simp
    qed
  qed
  then obtain h' k where run: "replace_type (Suc n) G h a False = Inr (h', k)"
    and r: "all_present h'" "\<forall>b. (h' b = None) = (h b = None)" by blast
  from replace_type_canonical [OF wf run] have "well_formed r G h'" by simp
  with run r show ?case by simp
qed

lemma replace_type_result_returns:
  assumes wf: "well_formed r G h" and ap: "all_present h" and a: "a = 0 \<or> h a \<noteq> None"
      and n: "r a < n"
  shows "\<exists>h' k. replace_type n G h a True = Inr (h', k)"
proof (cases "kind_of h a = FFI_TYPE_LONGDOUBLE")
  case True
  then obtain t where t: "a \<noteq> 0" "h a = Some t" "type t = FFI_TYPE_LONGDOUBLE"
    using kind_of_nonvoid [of h a] by auto
  from n obtain m where m: "n = Suc m" by (cases n) simp_all
  from wf have "statics_ok G h" by (simp add: well_formed_def)
  then obtain s where "h (ffi_type_sint64 G) = Some s" by (rule statics_sint64)
  then show ?thesis
    unfolding m by (simp add: replace_type_longdouble [of a h t m G, OF t])
next
  case False
  with replace_type_returns [OF wf ap a n] show ?thesis
    by (auto simp add: replace_type_in_results)
qed

lemma replace_args_returns:
  "well_formed r G h \<Longrightarrow> all_present h \<Longrightarrow>
   \<forall>a\<in>set as. (a = 0 \<or> h a \<noteq> None) \<and> r a < n \<Longrightarrow>
   \<exists>h'. replace_args n G h as = Inr h' \<and> well_formed r G h' \<and> all_present h' \<and>
     (\<forall>b. (h' b = None) = (h b = None))"
proof (induction as arbitrary: h)
  case Nil
  then show ?case by simp
next
  case (Cons a as)
  from Cons.prems(3) have a: "a = 0 \<or> h a \<noteq> None" "r a < n" by simp_all
  from replace_type_returns [OF Cons.prems(1,2) a] obtain h2 k where
    first: "replace_type n G h a False = Inr (h2, k)" and wf2: "well_formed r G h2"
    and ap2: "all_present h2" and dom2: "\<forall>b. (h2 b = None) = (h b = None)" by blast
  from Cons.prems(3) dom2 have as: "\<forall>a\<in>set as. (a = 0 \<or> h2 a \<noteq> None) \<and> r a < n" by simp
  from Cons.IH [OF wf2 ap2 as] obtain h' where
    "replace_args n G h2 as = Inr h'" "well_formed r G h'" "all_present h'"
    "\<forall>b. (h' b = None) = (h2 b = None)" by blast
  with first dom2 show ?case by simp
qed

lemma complex_argument_returns:
  "\<forall>a\<in>set as. h a \<noteq> None \<Longrightarrow> \<exists>b. complex_argument h as = Inr b"
  by (induction as) auto

lemma prep_cif_machdep_returns:
  assumes wf: "well_formed r G h" and ap: "all_present h"
      and len: "unat (nargs cif) \<le> length (arg_types cif)"
      and roots: "\<forall>a \<in> set (take (unat (nargs cif)) (arg_types cif)) \<union> {rtype cif}.
                    (a = 0 \<or> h a \<noteq> None) \<and> r a < fuel"
  shows "\<exists>h' cif' st. ffi_prep_cif_machdep False fuel G h cif = Inr (h', cif', st)"
proof -
  let ?as = "take (unat (nargs cif)) (arg_types cif)"
  from len have av: "arg_vector cif = Inr ?as" by (simp add: arg_vector_def)
  from roots have as: "\<forall>a\<in>set ?as. (a = 0 \<or> h a \<noteq> None) \<and> r a < fuel" by simp
  from replace_args_returns [OF wf ap as] obtain h1 where
    args: "replace_args fuel G h ?as = Inr h1" and wf1: "well_formed r G h1"
    and ap1: "all_present h1" and dom1: "\<forall>b. (h1 b = None) = (h b = None)" by blast
  from roots dom1 have "rtype cif = 0 \<or> h1 (rtype cif) \<noteq> None" "r (rtype cif) < fuel"
    by simp_all
  from replace_type_result_returns [OF wf1 ap1 this] obtain h2 k where
    "replace_type fuel G h1 (rtype cif) True = Inr (h2, k)" by blast
  with av args show ?thesis
    by (simp add: ffi_prep_cif_machdep_def split: prod.splits)
qed

lemma emscripten_prep_cif_machdep_returns:
  assumes rt: "h (rtype cif) \<noteq> None"
      and len: "unat (nargs cif) \<le> length (arg_types cif)"
      and args: "\<forall>a \<in> set (take (unat (nargs cif)) (arg_types cif)). h a \<noteq> None"
  shows "\<exists>h' cif' st. ffi_prep_cif_machdep True fuel G h cif = Inr (h', cif', st)"
proof -
  from complex_argument_returns [OF args] obtain b where
    "complex_argument h (take (unat (nargs cif)) (arg_types cif)) = Inr b" by blast
  with rt len show ?thesis
    by (auto simp add: ffi_prep_cif_machdep_def arg_vector_def split: prod.splits bool.splits)
qed

subsection \<open>Canonical form after \<open>ffi_prep_cif_machdep\<close>\<close>

lemma reachable_nonnull: "b \<in> reachable h roots \<Longrightarrow> b \<noteq> 0"
  by (induction rule: reachable.induct) simp_all

lemma reachable_canonical:
  assumes roots: "\<forall>a\<in>roots. canonical n h a"
  shows "b \<in> reachable h roots \<Longrightarrow> \<exists>m. canonical m h b"
proof (induction rule: reachable.induct)
  case (root a)
  with roots show ?case by blast
next
  case (element b t e)
  then obtain m where m: "canonical m h b" by blast
  then obtain m' where m': "m = Suc m'" by (cases m) simp_all
  from reachable_nonnull [OF element(1)] have b0: "b \<noteq> 0" .
  from m [unfolded m'] b0 obtain tb where "h b = Some tb"
    and "type tb = FFI_TYPE_STRUCT \<Longrightarrow> \<forall>e\<in>set (elements tb). canonical m' h e"
    by (rule canonical_cases) blast
  with element(2,3,4) show ?case by auto
qed

lemma canonical_local:
  assumes "canonical m h b" and "b \<noteq> 0"
  shows "\<exists>t. h b = Some t \<and> type t \<noteq> FFI_TYPE_COMPLEX \<and>
           (type t = FFI_TYPE_STRUCT \<longrightarrow> size_bytes t \<noteq> 0 \<and>
              (2 \<le> length (nonvoid_elements h (elements t)) \<or>
               (\<exists>e. nonvoid_elements h (elements t) = [e] \<and> kind_of h e = FFI_TYPE_STRUCT)))"
proof -
  from assms(1) obtain m' where m': "m = Suc m'" by (cases m) simp_all
  from assms(1) [unfolded m'] assms(2) obtain t where t: "h b = Some t"
    and nc: "type t \<noteq> FFI_TYPE_COMPLEX"
    and sz: "type t = FFI_TYPE_STRUCT \<Longrightarrow> size_bytes t \<noteq> 0"
    and ks: "type t = FFI_TYPE_STRUCT \<Longrightarrow> kept_struct h (elements t)"
    by (rule canonical_cases) blast
  have "2 \<le> length (nonvoid_elements h (elements t)) \<or>
        (\<exists>e. nonvoid_elements h (elements t) = [e] \<and> kind_of h e = FFI_TYPE_STRUCT)"
    if "type t = FFI_TYPE_STRUCT"
  proof -
    from ks [OF that] have "2 \<le> length (nonvoid_elements h (elements t)) \<or>
     (length (nonvoid_elements h (elements t)) = 1 \<and>
      kind_of h (last (nonvoid_elements h (elements t))) = FFI_TYPE_STRUCT)"
      by (simp only: kept_struct_cases)
    then show ?thesis
    proof
      assume "2 \<le> length (nonvoid_elements h (elements t))" then show ?thesis by simp
    next
      assume a: "length (nonvoid_elements h (elements t)) = 1 \<and>
        kind_of h (last (nonvoid_elements h (elements t))) = FFI_TYPE_STRUCT"
      then obtain e where "nonvoid_elements h (elements t) = [e]"
        by (cases "nonvoid_elements h (elements t)") auto
      with a show ?thesis by simp
    qed
  qed
  with t nc sz show ?thesis by blast
qed

lemma prep_cif_result_canonical:
  assumes wf: "well_formed r G h"
      and run: "ffi_prep_cif_machdep False fuel G h cif = Inr (h', cif', st)"
  shows "(\<forall>b \<in> reachable h' (set (take (unat (nargs cif)) (arg_types cif)) \<union> {rtype cif}).
           \<exists>t. h' b = Some t \<and> type t \<noteq> FFI_TYPE_COMPLEX \<and>
             (type t = FFI_TYPE_STRUCT \<longrightarrow> size_bytes t \<noteq> 0 \<and>
                (2 \<le> length (nonvoid_elements h' (elements t)) \<or>
                 (\<exists>e. nonvoid_elements h' (elements t) = [e] \<and> kind_of h' e = FFI_TYPE_STRUCT))))
       \<and> (kind_of h (rtype cif) = FFI_TYPE_LONGDOUBLE \<longrightarrow>
            kind_of h' (rtype cif) = FFI_TYPE_STRUCT)"
proof (intro conjI ballI impI)
  fix b
  assume b: "b \<in> reachable h' (set (take (unat (nargs cif)) (arg_types cif)) \<union> {rtype cif})"
  from prep_cif_types_canonical(1) [OF wf run] reachable_canonical [OF _ b]
  obtain m where "canonical m h' b" by blast
  then show "\<exists>t. h' b = Some t \<and> type t \<noteq> FFI_TYPE_COMPLEX \<and>
             (type t = FFI_TYPE_STRUCT \<longrightarrow> size_bytes t \<noteq> 0 \<and>
                (2 \<le> length (nonvoid_elements h' (elements t)) \<or>
                 (\<exists>e. nonvoid_elements h' (elements t) = [e] \<and> kind_of h' e = FFI_TYPE_STRUCT)))"
    using reachable_nonnull [OF b] by (rule canonical_local)
next
  assume "kind_of h (rtype cif) = FFI_TYPE_LONGDOUBLE"
  then show "kind_of h' (rtype cif) = FFI_TYPE_STRUCT"
    by (rule prep_cif_types_canonical(2) [OF wf run])
qed

lemma example_well_formed: "well_formed unat example_statics example_heap"
proof -
  have "statics_ok example_statics example_heap"
    by (simp add: statics_ok_def example_statics_def example_heap_def descriptor_def kind_of_def)
  moreover have "ranked unat example_statics example_heap"
    unfolding ranked_def
    by (auto simp add: example_statics_def example_heap_def descriptor_def split: if_splits)
  moreover have "complex_ok example_heap"
    unfolding complex_ok_def
    by (auto simp add: example_heap_def descriptor_def split: if_splits)
  ultimately show ?thesis by (simp add: well_formed_def)
qed

lemma example_all_present: "all_present example_heap"
  unfolding all_present_def
  by (auto simp add: example_heap_def descriptor_def split: if_splits)

lemma replace_args_fixed:
  "\<forall>a\<in>set as. canonical n h a \<Longrightarrow> replace_args n G h as = Inr h"
  by (induction as) (simp_all add: canonical_fixed del: canonical.simps)

lemma example_kinds:
  "kind_of example_heap 0x50 = FFI_TYPE_SINT32" "kind_of example_heap 0x100 = FFI_TYPE_STRUCT"
  "kind_of example_heap 0x40 = FFI_TYPE_LONGDOUBLE" "kind_of example_heap 0x10 = FFI_TYPE_SINT64"
  by (simp_all add: kind_of_def example_heap_def descriptor_def)

lemma example_lookup:
  "example_heap 0x50 = Some (descriptor 4 4 FFI_TYPE_SINT32 [])"
  "example_heap 0x100 = Some (descriptor 8 4 FFI_TYPE_STRUCT [0x50, 0x50])"
  "example_heap 0x110 = Some (descriptor 8 4 FFI_TYPE_STRUCT [0x100])"
  "example_heap 0x120 = Some (descriptor 16 16 FFI_TYPE_STRUCT [0x40])"
  "example_heap 0x130 = Some (descriptor 4 4 FFI_TYPE_STRUCT [0x50])"
  "example_heap 0x40 = Some (descriptor 16 16 FFI_TYPE_LONGDOUBLE [])"
  "example_heap 0x10 = Some (descriptor 8 8 FFI_TYPE_SINT64 [])"
  by (simp_all add: example_heap_def)

lemma example_canonical: "canonical (Suc (Suc (Suc 0))) example_heap 0x110"
  by (simp add: example_lookup example_kinds descriptor_def kept_struct_def nonvoid_elements_def)

lemma example_prep_run:
  "ffi_prep_cif_machdep False (Suc (Suc 0)) example_statics example_heap
      (example_cif FFI_WASM32 [0x130, 0x140] 0x40) =
   Inr (example_heap(0x130 \<mapsto> descriptor 4 4 FFI_TYPE_SINT32 [0x50],
                     0x140 \<mapsto> descriptor 8 4 FFI_TYPE_STRUCT [0x20, 0x20],
                     0x40 \<mapsto> descriptor 16 16 FFI_TYPE_STRUCT [0x10, 0x10]),
        example_cif FFI_WASM32 [0x130, 0x140] 0x40, FFI_OK)"
  by (simp add: ffi_prep_cif_machdep_def arg_vector_def example_cif_def replace_type.simps
      prep_cif_common_def MAX_ARGS_def VARARGS_FLAG_def example_heap_def descriptor_def
      example_statics_def complex_struct_elements_def)

lemma example_collapse_loop:
  "replace_type_loop (\<lambda>h' e. replace_type (Suc 0) example_statics h' e False) example_heap
      (elements (descriptor 4 4 FFI_TYPE_STRUCT [0x50])) FFI_TYPE_VOID 0 =
   Inr (example_heap, FFI_TYPE_SINT32, 1)"
  by (simp add: replace_type.simps example_heap_def descriptor_def)


text \<open>
  C1, as stated, fails.  \<open>struct S {struct T {int; int}}\<close> has one non-void element, the
  struct \<open>T\<close>.  \<open>replace_type\<close> overwrites the tag of \<open>S\<close> with the tag of that element,
  which is STRUCT: after \<open>ffi_prep_cif_machdep\<close> the argument type \<open>S\<close> is a reachable
  STRUCT of non-zero size with fewer than two non-void elements.
\<close>

theorem prep_cif_keeps_single_struct_element:
  "ffi_prep_cif_machdep False (Suc (Suc (Suc 0))) example_statics example_heap
      (example_cif FFI_WASM32 [0x110] 0) =
     Inr (example_heap, example_cif FFI_WASM32 [0x110] 0, FFI_OK)
   \<and> 0x110 \<in> reachable example_heap (set (take (unat (nargs (example_cif FFI_WASM32 [0x110] 0)))
          (arg_types (example_cif FFI_WASM32 [0x110] 0))) \<union> {rtype (example_cif FFI_WASM32 [0x110] 0)})
   \<and> example_heap 0x110 = Some (descriptor 8 4 FFI_TYPE_STRUCT [0x100])
   \<and> type (descriptor 8 4 FFI_TYPE_STRUCT [0x100]) = FFI_TYPE_STRUCT
   \<and> nonvoid_elements example_heap (elements (descriptor 8 4 FFI_TYPE_STRUCT [0x100])) = [0x100]
   \<and> \<not> 2 \<le> length [0x100 :: addr]"
proof -
  have "replace_args (Suc (Suc (Suc 0))) example_statics example_heap [0x110] = Inr example_heap"
    by (rule replace_args_fixed) (simp add: example_canonical del: canonical.simps)
  then have "ffi_prep_cif_machdep False (Suc (Suc (Suc 0))) example_statics example_heap
      (example_cif FFI_WASM32 [0x110] 0) =
     Inr (example_heap, example_cif FFI_WASM32 [0x110] 0, FFI_OK)"
    by (simp add: ffi_prep_cif_machdep_def arg_vector_def example_cif_def replace_type_null
        prep_cif_common_def MAX_ARGS_def VARARGS_FLAG_def)
  moreover have "0x110 \<in> reachable example_heap (set (take (unat (nargs (example_cif FFI_WASM32 [0x110] 0)))
          (arg_types (example_cif FFI_WASM32 [0x110] 0))) \<union> {rtype (example_cif FFI_WASM32 [0x110] 0)})"
    by (rule reachable.root) (simp_all add: example_cif_def)
  ultimately show ?thesis
    by (simp add: example_lookup example_kinds descriptor_def nonvoid_elements_def)
qed

text \<open>
  C1, amended.  For a well-formed store (the static descriptors hold their scalars, the
  descriptors form a directed acyclic graph, complex types have a floating-point
  element of non-zero size), \<open>ffi_prep_cif_machdep\<close> does not run out of fuel once the
  fuel exceeds the rank of the argument and return types, and whenever it returns:
  no descriptor reachable from the return type and the argument types has kind
  COMPLEX; every reachable STRUCT has a non-zero size and either at least two non-void
  elements or exactly one non-void element, which is itself a STRUCT; and a return
  type whose kind was LONGDOUBLE on entry has kind STRUCT.
\<close>

theorem prep_cif_canonical_form:
  assumes wf: "well_formed r G h"
  shows "((\<forall>a \<in> set (take (unat (nargs cif)) (arg_types cif)) \<union> {rtype cif}. r a < fuel) \<longrightarrow>
            ffi_prep_cif_machdep False fuel G h cif \<noteq> Inl OutOfFuel)
       \<and> (\<forall>h' cif' st. ffi_prep_cif_machdep False fuel G h cif = Inr (h', cif', st) \<longrightarrow>
            (\<forall>b \<in> reachable h' (set (take (unat (nargs cif)) (arg_types cif)) \<union> {rtype cif}).
               \<exists>t. h' b = Some t \<and> type t \<noteq> FFI_TYPE_COMPLEX \<and>
                 (type t = FFI_TYPE_STRUCT \<longrightarrow> size_bytes t \<noteq> 0 \<and>
                    (2 \<le> length (nonvoid_elements h' (elements t)) \<or>
                     (\<exists>e. nonvoid_elements h' (elements t) = [e] \<and>
                          kind_of h' e = FFI_TYPE_STRUCT))))
            \<and> (kind_of h (rtype cif) = FFI_TYPE_LONGDOUBLE \<longrightarrow>
                 kind_of h' (rtype cif) = FFI_TYPE_STRUCT))"
proof (intro conjI impI allI)
  assume "\<forall>a \<in> set (take (unat (nargs cif)) (arg_types cif)) \<union> {rtype cif}. r a < fuel"
  moreover from wf have "ranked r G h" by (simp add: well_formed_def)
  ultimately show "ffi_prep_cif_machdep False fuel G h cif \<noteq> Inl OutOfFuel"
    by (intro prep_cif_machdep_enough_fuel)
next
  fix h' cif' st
  assume run: "ffi_prep_cif_machdep False fuel G h cif = Inr (h', cif', st)"
  from prep_cif_result_canonical [OF wf run]
  show "\<forall>b \<in> reachable h' (set (take (unat (nargs cif)) (arg_types cif)) \<union> {rtype cif}).
               \<exists>t. h' b = Some t \<and> type t \<noteq> FFI_TYPE_COMPLEX \<and>
                 (type t = FFI_TYPE_STRUCT \<longrightarrow> size_bytes t \<noteq> 0 \<and>
                    (2 \<le> length (nonvoid_elements h' (elements t)) \<or>
                     (\<exists>e. nonvoid_elements h' (elements t) = [e] \<and>
                          kind_of h' e = FFI_TYPE_STRUCT)))"
    by (rule conjunct1)
  assume "kind_of h (rtype cif) = FFI_TYPE_LONGDOUBLE"
  with prep_cif_result_canonical [OF wf run]
  show "kind_of h' (rtype cif) = FFI_TYPE_STRUCT" by blast
qed

theorem prep_cif_canonical_form_witness:
  "ffi_prep_cif_machdep False (Suc (Suc 0)) example_statics example_heap
      (example_cif FFI_WASM32 [0x130, 0x140] 0x40) =
   Inr (example_heap(0x130 \<mapsto> descriptor 4 4 FFI_TYPE_SINT32 [0x50],
                     0x140 \<mapsto> descriptor 8 4 FFI_TYPE_STRUCT [0x20, 0x20],
                     0x40 \<mapsto> descriptor 16 16 FFI_TYPE_STRUCT [0x10, 0x10]),
        example_cif FFI_WASM32 [0x130, 0x140] 0x40, FFI_OK)
   \<and> kind_of (example_heap(0x130 \<mapsto> descriptor 4 4 FFI_TYPE_SINT32 [0x50],
                     0x140 \<mapsto> descriptor 8 4 FFI_TYPE_STRUCT [0x20, 0x20],
                     0x40 \<mapsto> descriptor 16 16 FFI_TYPE_STRUCT [0x10, 0x10])) 0x40 = FFI_TYPE_STRUCT
   \<and> ffi_prep_cif_machdep False 0x141 example_statics example_heap
      (example_cif FFI_WASM32 [0x130, 0x140] 0x40) \<noteq> Inl OutOfFuel"
  using
    prep_cif_canonical_form [OF example_well_formed, of "example_cif FFI_WASM32 [0x130, 0x140] 0x40"
      "Suc (Suc 0)"]
    prep_cif_canonical_form [OF example_well_formed, of "example_cif FFI_WASM32 [0x130, 0x140] 0x40"
      "0x141"]
    example_prep_run
  by (simp add: example_kinds example_cif_def)

subsection \<open>The status of \<open>ffi_prep_cif_machdep\<close>\<close>

text \<open>
  C3.  Built without \<open>__EMSCRIPTEN__\<close>, \<open>ffi_prep_cif_machdep\<close> returns for a CIF whose
  argument vector has \<open>nargs\<close> entries, over a well-formed store in which every
  descriptor pointed to is present, once the fuel exceeds the rank of the argument and
  return types; the status it returns is \<open>FFI_BAD_TYPEDEF\<close> if and only if
  \<open>nargs > 1000\<close>, and \<open>FFI_OK\<close> in every other case.  Built with \<open>__EMSCRIPTEN__\<close> it
  returns the same status, with any fuel, for a CIF that passes its other checks: the
  ABI tag is \<open>FFI_WASM32_EMSCRIPTEN\<close> and the return type and the top-level argument
  types are present and not COMPLEX.  Moreover, on any store, the status is the stated
  one whenever the function returns, and a failure to return is never a lack of fuel
  (without \<open>__EMSCRIPTEN__\<close>: once the fuel exceeds the ranks).
\<close>

theorem prep_cif_machdep_status:
  "(well_formed r G h \<and> all_present h \<and> unat (nargs cif) \<le> length (arg_types cif) \<and>
      (\<forall>a \<in> set (take (unat (nargs cif)) (arg_types cif)) \<union> {rtype cif}.
          (a = 0 \<or> h a \<noteq> None) \<and> r a < fuel) \<longrightarrow>
      (\<exists>h1 cif1 st1. ffi_prep_cif_machdep False fuel G h cif = Inr (h1, cif1, st1) \<and>
         (st1 = FFI_BAD_TYPEDEF) = (MAX_ARGS < unat (nargs cif)) \<and>
         (st1 = FFI_OK) = (unat (nargs cif) \<le> MAX_ARGS)))
   \<and> (abi cif = FFI_WASM32_EMSCRIPTEN \<and> unat (nargs cif) \<le> length (arg_types cif) \<and>
      (\<exists>t. h (rtype cif) = Some t \<and> type t \<noteq> FFI_TYPE_COMPLEX) \<and>
      (\<forall>a \<in> set (take (unat (nargs cif)) (arg_types cif)).
          \<exists>t. h a = Some t \<and> type t \<noteq> FFI_TYPE_COMPLEX) \<longrightarrow>
      (\<exists>h1 cif1 st1. ffi_prep_cif_machdep True fuel G h cif = Inr (h1, cif1, st1) \<and>
         (st1 = FFI_BAD_TYPEDEF) = (MAX_ARGS < unat (nargs cif)) \<and>
         (st1 = FFI_OK) = (unat (nargs cif) \<le> MAX_ARGS)))
   \<and> (ranked r G h \<and>
      (\<forall>a \<in> set (take (unat (nargs cif)) (arg_types cif)) \<union> {rtype cif}. r a < fuel) \<longrightarrow>
      ffi_prep_cif_machdep False fuel G h cif \<noteq> Inl OutOfFuel)
   \<and> ffi_prep_cif_machdep True fuel G h cif \<noteq> Inl OutOfFuel
   \<and> (ffi_prep_cif_machdep False fuel G h cif = Inr (h', cif', st) \<longrightarrow>
      (st = FFI_BAD_TYPEDEF) = (MAX_ARGS < unat (nargs cif)) \<and>
      (st = FFI_OK) = (unat (nargs cif) \<le> MAX_ARGS))
   \<and> (ffi_prep_cif_machdep True fuel G h cif = Inr (h', cif', st) \<and>
      abi cif = FFI_WASM32_EMSCRIPTEN \<and>
      (\<forall>t. h (rtype cif) = Some t \<longrightarrow> type t \<noteq> FFI_TYPE_COMPLEX) \<and>
      (\<forall>a \<in> set (take (unat (nargs cif)) (arg_types cif)).
          \<forall>t. h a = Some t \<longrightarrow> type t \<noteq> FFI_TYPE_COMPLEX) \<longrightarrow>
      (st = FFI_BAD_TYPEDEF) = (MAX_ARGS < unat (nargs cif)) \<and>
      (st = FFI_OK) = (unat (nargs cif) \<le> MAX_ARGS))"
proof -
  have plain: "(s = FFI_BAD_TYPEDEF) = (MAX_ARGS < unat (nargs cif)) \<and>
               (s = FFI_OK) = (unat (nargs cif) \<le> MAX_ARGS)"
    if "ffi_prep_cif_machdep False fuel G h cif = Inr (h2, cif2, s)" for h2 cif2 s
  proof -
    from that have "s = snd (prep_cif_common cif)"
      by (auto simp add: ffi_prep_cif_machdep_def split: sum.splits prod.splits)
    then show ?thesis by (auto simp add: prep_cif_common_status)
  qed
  have js: "(s = FFI_BAD_TYPEDEF) = (MAX_ARGS < unat (nargs cif)) \<and>
            (s = FFI_OK) = (unat (nargs cif) \<le> MAX_ARGS)"
    if "ffi_prep_cif_machdep True fuel G h cif = Inr (h2, cif2, s)"
      and "abi cif = FFI_WASM32_EMSCRIPTEN"
      and "\<forall>t. h (rtype cif) = Some t \<longrightarrow> type t \<noteq> FFI_TYPE_COMPLEX"
      and "\<forall>a \<in> set (take (unat (nargs cif)) (arg_types cif)).
             \<forall>t. h a = Some t \<longrightarrow> type t \<noteq> FFI_TYPE_COMPLEX"
    for h2 cif2 s
  proof -
    from that(4) have "complex_argument h (take (unat (nargs cif)) (arg_types cif)) \<noteq> Inr True"
      using complex_argument_False by blast
    with that have "s = snd (prep_cif_common cif)"
      by (auto simp add: ffi_prep_cif_machdep_def arg_vector_def
          split: sum.splits prod.splits option.splits if_splits bool.splits)
    then show ?thesis by (auto simp add: prep_cif_common_status)
  qed
  have A: "\<exists>h1 cif1 st1. ffi_prep_cif_machdep False fuel G h cif = Inr (h1, cif1, st1) \<and>
         (st1 = FFI_BAD_TYPEDEF) = (MAX_ARGS < unat (nargs cif)) \<and>
         (st1 = FFI_OK) = (unat (nargs cif) \<le> MAX_ARGS)"
    if "well_formed r G h \<and> all_present h \<and> unat (nargs cif) \<le> length (arg_types cif) \<and>
      (\<forall>a \<in> set (take (unat (nargs cif)) (arg_types cif)) \<union> {rtype cif}.
          (a = 0 \<or> h a \<noteq> None) \<and> r a < fuel)"
  proof -
    from that have "well_formed r G h" "all_present h"
      "unat (nargs cif) \<le> length (arg_types cif)"
      "\<forall>a \<in> set (take (unat (nargs cif)) (arg_types cif)) \<union> {rtype cif}.
          (a = 0 \<or> h a \<noteq> None) \<and> r a < fuel"
      by blast+
    then have "\<exists>h1 cif1 st1. ffi_prep_cif_machdep False fuel G h cif = Inr (h1, cif1, st1)"
      by (rule prep_cif_machdep_returns)
    with plain show ?thesis by blast
  qed
  have B: "\<exists>h1 cif1 st1. ffi_prep_cif_machdep True fuel G h cif = Inr (h1, cif1, st1) \<and>
         (st1 = FFI_BAD_TYPEDEF) = (MAX_ARGS < unat (nargs cif)) \<and>
         (st1 = FFI_OK) = (unat (nargs cif) \<le> MAX_ARGS)"
    if b: "abi cif = FFI_WASM32_EMSCRIPTEN \<and> unat (nargs cif) \<le> length (arg_types cif) \<and>
      (\<exists>t. h (rtype cif) = Some t \<and> type t \<noteq> FFI_TYPE_COMPLEX) \<and>
      (\<forall>a \<in> set (take (unat (nargs cif)) (arg_types cif)).
          \<exists>t. h a = Some t \<and> type t \<noteq> FFI_TYPE_COMPLEX)"
  proof -
    from b have "h (rtype cif) \<noteq> None" "unat (nargs cif) \<le> length (arg_types cif)"
      "\<forall>a \<in> set (take (unat (nargs cif)) (arg_types cif)). h a \<noteq> None"
      by auto
    then have "\<exists>h1 cif1 st1. ffi_prep_cif_machdep True fuel G h cif = Inr (h1, cif1, st1)"
      by (rule emscripten_prep_cif_machdep_returns)
    then obtain h1 cif1 st1 where
      run: "ffi_prep_cif_machdep True fuel G h cif = Inr (h1, cif1, st1)" by blast
    from b have "abi cif = FFI_WASM32_EMSCRIPTEN"
      "\<forall>t. h (rtype cif) = Some t \<longrightarrow> type t \<noteq> FFI_TYPE_COMPLEX"
      "\<forall>a \<in> set (take (unat (nargs cif)) (arg_types cif)).
             \<forall>t. h a = Some t \<longrightarrow> type t \<noteq> FFI_TYPE_COMPLEX"
      by auto
    from js [OF run this] run show ?thesis by blast
  qed
  have C: "ffi_prep_cif_machdep False fuel G h cif \<noteq> Inl OutOfFuel"
    if "ranked r G h \<and>
      (\<forall>a \<in> set (take (unat (nargs cif)) (arg_types cif)) \<union> {rtype cif}. r a < fuel)"
  proof -
    from that have "ranked r G h"
      and "\<forall>a \<in> set (take (unat (nargs cif)) (arg_types cif)) \<union> {rtype cif}. r a < fuel"
      by simp_all
    then show ?thesis by (rule prep_cif_machdep_enough_fuel)
  qed
  have D: "ffi_prep_cif_machdep True fuel G h cif \<noteq> Inl OutOfFuel"
    by (auto simp add: ffi_prep_cif_machdep_def arg_vector_def
        dest: complex_argument_error split: sum.splits option.splits bool.splits)
  from A B C D plain [of h' cif' st] js [of h' cif' st] show ?thesis by blast
qed

theorem prep_cif_machdep_status_witness:
  "ffi_prep_cif_machdep False (Suc 0) example_statics example_heap
      (example_cif FFI_WASM32 (replicate 1001 0x50) 0) =
     Inr (example_heap, example_cif FFI_WASM32 (replicate 1001 0x50) 0, FFI_BAD_TYPEDEF)
   \<and> MAX_ARGS < unat (nargs (example_cif FFI_WASM32 (replicate 1001 0x50) 0))
   \<and> ffi_prep_cif_machdep False (Suc 0) example_statics example_heap
      (example_cif FFI_WASM32 [0x50, 0x50] 0x50) =
     Inr (example_heap, example_cif FFI_WASM32 [0x50, 0x50] 0x50, FFI_OK)
   \<and> unat (nargs (example_cif FFI_WASM32 [0x50, 0x50] 0x50)) \<le> MAX_ARGS
   \<and> ffi_prep_cif_machdep True 0 example_statics example_heap
      (example_cif FFI_WASM32_EMSCRIPTEN [0x50, 0x50] 0x50) =
     Inr (example_heap, example_cif FFI_WASM32_EMSCRIPTEN [0x50, 0x50] 0x50, FFI_OK)
   \<and> (\<exists>h1 cif1. ffi_prep_cif_machdep False 0x141 example_statics example_heap
         (example_cif FFI_WASM32 [0x110, 0x140] 0x120) = Inr (h1, cif1, FFI_OK))
   \<and> ffi_prep_cif_machdep False 0x141 example_statics example_heap
         (example_cif FFI_WASM32 [0x110, 0x140] 0x120) \<noteq> Inl OutOfFuel
   \<and> (\<exists>h1 cif1. ffi_prep_cif_machdep True 0 example_statics example_heap
         (example_cif FFI_WASM32_EMSCRIPTEN [0x50, 0x50] 0x50) = Inr (h1, cif1, FFI_OK))"
proof -
  let ?many = "example_cif FFI_WASM32 (replicate 1001 0x50) 0"
  let ?two = "example_cif FFI_WASM32 [0x50, 0x50] 0x50"
  let ?deep = "example_cif FFI_WASM32 [0x110, 0x140] 0x120"
  let ?js = "example_cif FFI_WASM32_EMSCRIPTEN [0x50, 0x50] 0x50"
  have roots: "\<forall>a \<in> set (take (unat (nargs ?deep)) (arg_types ?deep)) \<union> {rtype ?deep}.
                (a = 0 \<or> example_heap a \<noteq> None) \<and> unat a < 0x141"
    by (simp add: example_cif_def example_heap_def)
  then have ranks: "\<forall>a \<in> set (take (unat (nargs ?deep)) (arg_types ?deep)) \<union> {rtype ?deep}.
                unat a < 0x141"
    by blast
  have rk: "ranked unat example_statics example_heap"
    using example_well_formed by (simp add: well_formed_def)
  have len: "unat (nargs ?deep) \<le> length (arg_types ?deep)" by (simp add: example_cif_def)
  have n: "unat (nargs ?deep) \<le> MAX_ARGS" by (simp add: example_cif_def MAX_ARGS_def)
  have 1: "\<exists>h1 cif1. ffi_prep_cif_machdep False 0x141 example_statics example_heap ?deep =
          Inr (h1, cif1, FFI_OK)"
    using prep_cif_machdep_status [where r = unat and fuel = "0x141" and G = example_statics
        and h = example_heap and cif = ?deep and h' = example_heap and cif' = ?deep
        and st = FFI_OK, THEN conjunct1]
      example_well_formed example_all_present roots len n
    by blast
  have 2: "ffi_prep_cif_machdep False 0x141 example_statics example_heap ?deep \<noteq>
          Inl OutOfFuel"
    using prep_cif_machdep_status [where r = unat and fuel = "0x141" and G = example_statics
        and h = example_heap and cif = ?deep and h' = example_heap and cif' = ?deep
        and st = FFI_OK, THEN conjunct2, THEN conjunct2, THEN conjunct1]
      rk ranks
    by blast
  have js: "abi ?js = FFI_WASM32_EMSCRIPTEN \<and> unat (nargs ?js) \<le> length (arg_types ?js) \<and>
      (\<exists>t. example_heap (rtype ?js) = Some t \<and> type t \<noteq> FFI_TYPE_COMPLEX) \<and>
      (\<forall>a \<in> set (take (unat (nargs ?js)) (arg_types ?js)).
          \<exists>t. example_heap a = Some t \<and> type t \<noteq> FFI_TYPE_COMPLEX)"
    by (simp add: example_cif_def example_lookup descriptor_def)
  have njs: "unat (nargs ?js) \<le> MAX_ARGS" by (simp add: example_cif_def MAX_ARGS_def)
  have 3: "\<exists>h1 cif1. ffi_prep_cif_machdep True 0 example_statics example_heap ?js =
          Inr (h1, cif1, FFI_OK)"
    using prep_cif_machdep_status [where r = unat and fuel = 0 and G = example_statics
        and h = example_heap and cif = ?js and h' = example_heap and cif' = ?js
        and st = FFI_OK, THEN conjunct2, THEN conjunct1]
      js njs
    by blast
  have 4: "MAX_ARGS < unat (nargs ?many)"
    using prep_cif_machdep_status [where fuel = "Suc 0" and G = example_statics
        and h = example_heap and cif = ?many and h' = example_heap and cif' = ?many
        and st = FFI_BAD_TYPEDEF] many_args_run
    by simp
  have 5: "unat (nargs ?two) \<le> MAX_ARGS"
    using prep_cif_machdep_status [where fuel = "Suc 0" and G = example_statics
        and h = example_heap and cif = ?two and h' = example_heap and cif' = ?two
        and st = FFI_OK] two_args_run
    by simp
  from 1 2 3 4 5 show ?thesis
    by (simp add: many_args_run two_args_run emscripten_two_args_run)
qed

subsection \<open>Collapsing a struct with one non-void element\<close>

text \<open>
  C9.  For a struct descriptor of non-zero size in a well-formed store whose elements,
  once canonicalised by the loop of \<open>replace_type\<close>, count at most one non-void element,
  \<open>replace_type\<close> returns with only the tag of the descriptor overwritten: the new tag
  is the kind of the one non-void element, or VOID if there is none, and the size, the
  alignment and the element vector are the original ones.
\<close>

theorem replace_type_collapse_keeps_size:
  assumes wf: "well_formed r G h"
      and a0: "a \<noteq> 0" and t: "h a = Some t" and st: "type t = FFI_TYPE_STRUCT"
      and sz: "size_bytes t \<noteq> 0"
      and loop: "replace_type_loop (\<lambda>h' e. replace_type fuel G h' e False) h (elements t)
                   FFI_TYPE_VOID 0 = Inr (h1, sc, cnt)"
      and one: "length (nonvoid_elements h1 (elements t)) \<le> 1"
  shows "replace_type (Suc fuel) G h a in_results = Inr (h1(a \<mapsto> t\<lparr>type := sc\<rparr>), sc)
       \<and> size_bytes (t\<lparr>type := sc\<rparr>) = size_bytes t
       \<and> alignment (t\<lparr>type := sc\<rparr>) = alignment t
       \<and> elements (t\<lparr>type := sc\<rparr>) = elements t
       \<and> (case nonvoid_elements h1 (elements t) of
            [] \<Rightarrow> sc = FFI_TYPE_VOID
          | e # _ \<Rightarrow> sc = kind_of h1 e)"
proof -
  let ?nv = "nonvoid_elements h1 (elements t)"
  have L: "well_formed r G h1 \<and> (\<forall>m b. canonical m h b \<longrightarrow> h1 b = h b) \<and>
         (\<forall>e\<in>set (elements t). canonical (fuel + 2) h1 e) \<and>
         cnt = 0 + length ?nv \<and>
         sc = (if ?nv = [] then FFI_TYPE_VOID else kind_of h1 (last ?nv))"
    using loop wf by (rule loop_canonical [rotated 1]) (use replace_type_canonical in blast)
  then have cnt: "cnt = length ?nv"
    and sc: "sc = (if ?nv = [] then FFI_TYPE_VOID else kind_of h1 (last ?nv))" by simp_all
  from wf have rk: "ranked r G h" by (simp add: well_formed_def)
  have els: "\<forall>e\<in>set (elements t). r e < r a" using ranked_elements [OF rk t] by blast
  have "ranked r G h1 \<and> (\<forall>b. r a \<le> r b \<longrightarrow> h1 b = h b)"
    using loop rk els by (rule loop_ranked [rotated 1]) (use replace_type_ranked in blast)
  then have h1a: "h1 a = Some t" using t by simp
  have c1: "\<not> cnt > 1" using one cnt by simp
  have "replace_type (Suc fuel) G h a in_results = Inr (h1(a \<mapsto> t\<lparr>type := sc\<rparr>), sc)"
    by (simp only: replace_type_struct [of a h t fuel G in_results, OF a0 t st sz] loop)
       (use h1a c1 in simp)
  moreover have "case ?nv of [] \<Rightarrow> sc = FFI_TYPE_VOID | e # _ \<Rightarrow> sc = kind_of h1 e"
  proof (cases ?nv)
    case Nil
    with sc show ?thesis by simp
  next
    case (Cons e es)
    with one have "es = []" by simp
    with Cons sc show ?thesis by simp
  qed
  ultimately show ?thesis by simp
qed

theorem replace_type_collapse_keeps_size_witness:
  "replace_type (Suc (Suc 0)) example_statics example_heap 0x130 False =
     Inr (example_heap(0x130 \<mapsto> descriptor 4 4 FFI_TYPE_SINT32 [0x50]), FFI_TYPE_SINT32)"
  using replace_type_collapse_keeps_size [OF example_well_formed _ example_lookup(5) _ _
      example_collapse_loop, of False]
  by (simp add: descriptor_def nonvoid_elements_def example_kinds)

subsection \<open>Calling \<open>ffi_prep_cif_machdep\<close> twice\<close>

text \<open>
  C6 fails on the code.  For the return type \<open>struct L {long double}\<close> the first call
  collapses the descriptor to the tag LONGDOUBLE without the rewrite that a long double
  in return position gets; the second call then finds LONGDOUBLE in return position and
  rewrites the descriptor to a struct of two 64-bit integers.  Between the two calls
  \<open>return_indirect\<close> aborts on the return type.
\<close>

theorem prep_cif_machdep_second_call_rewrites:
  "ffi_prep_cif_machdep False (Suc (Suc 0)) example_statics example_heap
      (example_cif FFI_WASM32 [] 0x120) =
     Inr (example_heap(0x120 \<mapsto> descriptor 16 16 FFI_TYPE_LONGDOUBLE [0x40]),
          example_cif FFI_WASM32 [] 0x120, FFI_OK)
   \<and> ffi_prep_cif_machdep False (Suc (Suc 0)) example_statics
        (example_heap(0x120 \<mapsto> descriptor 16 16 FFI_TYPE_LONGDOUBLE [0x40]))
        (example_cif FFI_WASM32 [] 0x120) =
     Inr (example_heap(0x120 \<mapsto> descriptor 16 16 FFI_TYPE_STRUCT [0x10, 0x10]),
          example_cif FFI_WASM32 [] 0x120, FFI_OK)
   \<and> return_indirect (example_heap(0x120 \<mapsto> descriptor 16 16 FFI_TYPE_LONGDOUBLE [0x40])) 0x120 =
     Inl Abort"
  by (simp add: ffi_prep_cif_machdep_def arg_vector_def example_cif_def replace_type.simps
      prep_cif_common_def MAX_ARGS_def VARARGS_FLAG_def example_heap_def descriptor_def
      example_statics_def return_indirect_def)


text \<open>Apart from that case a second call is a no-op.\<close>

lemma prep_cif_common_again:
  "prep_cif_common cif = (cif', st) \<Longrightarrow> prep_cif_common cif' = (cif', st)"
  by (auto simp add: prep_cif_common_def Let_def split: if_splits)

lemma prep_cif_common_fields:
  "prep_cif_common cif = (cif', st) \<Longrightarrow>
   nargs cif' = nargs cif \<and> arg_types cif' = arg_types cif \<and> rtype cif' = rtype cif"
  by (auto simp add: prep_cif_common_def Let_def split: if_splits)

lemma prep_cif_machdep_again:
  assumes wf: "well_formed r G h"
      and run: "ffi_prep_cif_machdep False fuel G h cif = Inr (h', cif', st)"
      and nl: "kind_of h' (rtype cif) \<noteq> FFI_TYPE_LONGDOUBLE"
      and fuel: "fuel + 3 \<le> fuel'"
  shows "ffi_prep_cif_machdep False fuel' G h' cif' = Inr (h', cif', st)"
proof -
  let ?as = "take (unat (nargs cif)) (arg_types cif)"
  from prep_cif_types_canonical(3) [OF wf run] have pc: "prep_cif_common cif = (cif', st)" by simp
  note f = prep_cif_common_fields [OF pc]
  from run have len: "unat (nargs cif) \<le> length (arg_types cif)"
    by (auto simp add: ffi_prep_cif_machdep_def arg_vector_def split: if_splits)
  then have av: "arg_vector cif' = Inr ?as" by (simp add: arg_vector_def f)
  have can: "canonical fuel' h' a" if "a \<in> set ?as \<union> {rtype cif}" for a
    using prep_cif_types_canonical(1) [OF wf run] that fuel canonical_mono by blast
  then have "replace_args fuel' G h' ?as = Inr h'" by (intro replace_args_fixed) blast
  moreover have "replace_type fuel' G h' (rtype cif) True = Inr (h', kind_of h' (rtype cif))"
    using can nl by (intro canonical_fixed) simp_all
  ultimately show ?thesis
    by (simp add: ffi_prep_cif_machdep_def av f prep_cif_common_again [OF pc])
qed


end
